theory Spec2Isabelle
  imports Main "HOL-Library.Sublist" "HOL-Library.List_Lexorder" "HOL-Library.Char_ord"
    "HOL-Library.Code_Target_Nat"
begin

text \<open>
  The sources. \<open>src/src/logger.js\<close> holds three modules one after the other:
  \<open>logger.js\<close>, \<open>utils.js\<close> (\<open>sleep\<close>, \<open>withRetry\<close>, \<open>generateTimestamp\<close>, \<open>ensureCsv\<close>) and
  the most recent revision of \<open>storage.js\<close> (\<open>deliver\<close>, \<open>pruneHistory\<close>).
  \<open>src/unnamed/part_000\<close> is the older revision of \<open>storage.js\<close>, and
  \<open>src/unnamed/part_001\<close> is \<open>index.js\<close> (\<open>clickFirst\<close>, \<open>fillFirst\<close>, \<open>login\<close>,
  \<open>downloadCsv\<close>, \<open>runAgent\<close>).
\<close>

section \<open>Strings and buffers of the JavaScript runtime\<close>

text \<open>
  A Node \<open>Buffer\<close> is a list of bytes, modelled as \<^typ>\<open>string\<close> (a \<^typ>\<open>char\<close> is one byte).
  The strings the program handles as such (addresses, selectors, file names, messages,
  header values) are modelled as \<^typ>\<open>string\<close> as well, one byte a character: the
  program compares them, joins them, and searches them for ASCII patterns. On them
  \<open>toLowerCase\<close> folds \<open>A\<close>..\<open>Z\<close>.
\<close>

definition lower_char :: "char \<Rightarrow> char" where
  "lower_char c =
     (if 65 \<le> (of_char c :: nat) \<and> (of_char c :: nat) \<le> 90
      then char_of ((of_char c :: nat) + 32) else c)"

definition toLowerCase :: "string \<Rightarrow> string" where
  "toLowerCase s = map lower_char s"

text \<open>\<open>s.includes(t)\<close>: \<open>t\<close> occurs in \<open>s\<close> as a contiguous run.\<close>

fun includes_str :: "'a list \<Rightarrow> 'a list \<Rightarrow> bool" where
  "includes_str [] t = (t = [])"
| "includes_str (c # s) t = (prefix t (c # s) \<or> includes_str s t)"

text \<open>
  The text decoded from a buffer is a list of Unicode code points. \<open>buffer.toString('utf-8')\<close>
  runs the UTF-8 decoder of the Encoding Standard, which the runtime follows: \<open>needed\<close> is
  the number of continuation bytes still awaited, \<open>point\<close> the code point collected so
  far, and \<open>lower\<close>..\<open>upper\<close> the range the next continuation byte must lie in. A byte that
  cannot start or continue a sequence yields U+FFFD; a byte that breaks off a sequence
  yields U+FFFD and is then decoded on its own; a sequence cut off by the end of the
  buffer yields U+FFFD. A byte order mark is kept. The decoder puts out no surrogate, so
  the code points of the text and the UTF-16 code units of the JavaScript string
  determine each other, and a search for an ASCII pattern finds the same in both.
\<close>

type_synonym ustring = "nat list"

function decode :: "nat \<Rightarrow> nat \<Rightarrow> nat \<Rightarrow> nat \<Rightarrow> nat list \<Rightarrow> ustring" where
  "decode needed point lower upper [] = (if needed = 0 then [] else [0xFFFD])"
| "decode needed point lower upper (b # bytes) =
     (if needed = 0 then
        if b \<le> 0x7F then b # decode 0 0 0x80 0xBF bytes
        else if 0xC2 \<le> b \<and> b \<le> 0xDF then decode 1 (b - 0xC0) 0x80 0xBF bytes
        else if 0xE0 \<le> b \<and> b \<le> 0xEF then
          decode 2 (b - 0xE0) (if b = 0xE0 then 0xA0 else 0x80) (if b = 0xED then 0x9F else 0xBF)
            bytes
        else if 0xF0 \<le> b \<and> b \<le> 0xF4 then
          decode 3 (b - 0xF0) (if b = 0xF0 then 0x90 else 0x80) (if b = 0xF4 then 0x8F else 0xBF)
            bytes
        else 0xFFFD # decode 0 0 0x80 0xBF bytes
      else if b < lower \<or> upper < b then 0xFFFD # decode 0 0 0x80 0xBF (b # bytes)
      else if needed = 1 then (point * 64 + (b - 0x80)) # decode 0 0 0x80 0xBF bytes
      else decode (needed - 1) (point * 64 + (b - 0x80)) 0x80 0xBF bytes)"
  by pat_completeness auto
termination
  by (relation "measure (\<lambda>(needed, point, lower, upper, bytes).
        2 * length bytes + (if needed = 0 then 0 else 1))") auto

definition toString_utf8 :: "string \<Rightarrow> ustring" where
  "toString_utf8 buffer = decode 0 0 0x80 0xBF (map of_char buffer)"

text \<open>An ASCII string literal of the program as text.\<close>

definition ascii :: "string \<Rightarrow> ustring" where
  "ascii s = map of_char s"

text \<open>
  \<open>toLowerCase\<close> on text follows the case mappings of Unicode. The letters \<open>A\<close>..\<open>Z\<close> go
  to \<open>a\<close>..\<open>z\<close>, and two characters outside ASCII go to ASCII letters: the Kelvin sign
  U+212A to \<open>k\<close>, and U+0130 to \<open>i\<close> followed by U+0307. Every other character outside
  ASCII goes to characters outside ASCII, and no mapping yields or takes white space; the
  tables of those mappings are not reproduced, the characters are left as they are. The
  program looks in the lower-cased text only for ASCII patterns and for white space at
  its ends, which this leaves as the runtime has them.
\<close>

definition lower_point :: "nat \<Rightarrow> ustring" where
  "lower_point c =
     (if 0x41 \<le> c \<and> c \<le> 0x5A then [c + 0x20]
      else if c = 0x130 then [0x69, 0x307]
      else if c = 0x212A then [0x6B]
      else [c])"

definition toLowerCase_text :: "ustring \<Rightarrow> ustring" where
  "toLowerCase_text s = concat (map lower_point s)"

text \<open>
  \<open>trim\<close> strips white space and line terminators from both ends: tab, line feed,
  vertical tab, form feed, carriage return, space, the no-break space U+00A0, U+1680,
  U+2000..U+200A, the line and paragraph separators U+2028 and U+2029, U+202F, U+205F,
  U+3000, and the byte order mark U+FEFF.
\<close>

definition isWhiteSpace :: "nat \<Rightarrow> bool" where
  "isWhiteSpace c =
     (c \<in> {0x09, 0x0A, 0x0B, 0x0C, 0x0D, 0x20, 0xA0, 0x1680, 0x2028, 0x2029, 0x202F, 0x205F,
            0x3000, 0xFEFF}
      \<or> (0x2000 \<le> c \<and> c \<le> 0x200A))"

definition trim :: "ustring \<Rightarrow> ustring" where
  "trim s = rev (dropWhile isWhiteSpace (rev (dropWhile isWhiteSpace s)))"

section \<open>The Content Classifier: \<open>ensureCsv\<close> (utils.js)\<close>

definition validTypes :: "string list" where
  "validTypes =
     [''text/csv'', ''application/csv'', ''application/octet-stream'', ''application/x-csv'']"

definition htmlMarkers :: "string list" where
  "htmlMarkers =
     [''<!doctype'', ''<html'', ''<head'', ''<body'', ''<meta'', ''<title'', ''<script'', ''<div'']"

text \<open>
  The sample the classifier looks at: at most 2048 bytes, decoded, lower-cased and
  trimmed.
\<close>

definition sampleOf :: "string \<Rightarrow> ustring" where
  "sampleOf buffer =
     (let sampleSize = min (length buffer) 2048
      in trim (toLowerCase_text (toString_utf8 (take sampleSize buffer))))"

definition hasDelimiters :: "ustring \<Rightarrow> bool" where
  "hasDelimiters sample =
     (includes_str sample (ascii '','') \<or> includes_str sample (ascii '';'')
      \<or> includes_str sample (ascii [CHR 0x09]) \<or> includes_str sample (ascii ''|''))"

definition hasNewlines :: "ustring \<Rightarrow> bool" where
  "hasNewlines sample =
     (includes_str sample (ascii [CHR 0x0A]) \<or> includes_str sample (ascii [CHR 0x0D]))"

definition ensureCsv :: "string \<Rightarrow> string \<Rightarrow> bool" where
  "ensureCsv buffer contentType =
     (let lowerContentType = toLowerCase contentType in
      if includes_str lowerContentType ''text/html''
         \<or> includes_str lowerContentType ''application/xhtml''
      then False
      else
        let sample = sampleOf buffer in
        if list_ex (\<lambda>marker. includes_str sample (ascii marker)) htmlMarkers then False
        else if \<not> hasDelimiters sample \<and> length buffer > 100 then False
        else if list_ex (\<lambda>type. includes_str lowerContentType type) validTypes then True
        else hasDelimiters sample \<or> hasNewlines sample \<or> length buffer < 100)"

section \<open>Effects: thrown values, the outside world and its trace\<close>

text \<open>
  An \<open>async\<close> function is a state transformer that either throws or returns: the result
  is \<open>Inl\<close> of the thrown value or \<open>Inr\<close> of the returned one, next to the new state.
  A thrown value is an \<open>Error\<close> object with its message, an error of Node's \<open>fs\<close> with
  its \<open>code\<close> and its message, or \<open>undefined\<close> (the value of a variable never assigned,
  and what a promise rejected with no reason throws; \<open>null\<close> behaves like it wherever
  the program reads a property of what was thrown).
  Calls of \<open>logger\<close> change nothing the program reads and are left out.
\<close>

datatype error = Undefined | Error string | ErrnoError string string

text \<open>\<open>error.message\<close>; reading it from \<open>undefined\<close> throws a \<open>TypeError\<close>.\<close>

fun message :: "error \<Rightarrow> string option" where
  "message Undefined = None"
| "message (Error msg) = Some msg"
| "message (ErrnoError code msg) = Some msg"

fun code :: "error \<Rightarrow> string option" where
  "code (ErrnoError c msg) = Some c"
| "code _ = None"

definition typeError :: error where
  "typeError = Error ''TypeError: Cannot read properties of undefined''"

record response =
  resp_status :: nat
  resp_contentType :: "string option"
  resp_body :: "error + string"

text \<open>
  What the upload endpoint of the WordPress site answers: \<open>ok\<close> in the reply's data, its
  absence, or a status outside 2xx (which \<open>axios\<close> throws as an error with a response).
\<close>

datatype wp_reply = Ok | NotOk | HttpError nat

record s3_object =
  Key :: string
  LastModified :: int

text \<open>
  The calls that reach outside the program and return nothing: the browser (Playwright),
  the file system, the object store, and the storage module's two entry points as the
  agent calls them. A Playwright locator is lazy, a description of how to find the
  element, so an element is identified with the selector it was located by.
\<close>

datatype action =
    Launch | NewContext | NewPage | ClosePage | CloseContext | CloseBrowser
  | Goto string | Locator string | Click string | Fill string string | Press string
  | WaitForLoadState | Mkdir string | Screenshot string
  | Deliver string string | PruneHistory string int
  | WriteFile string string | Unlink string | PutObject string string | DeleteObject string

text \<open>Every call that reaches outside is recorded in the trace, with how it ended.\<close>

datatype 'r event =
    Invoked "error + 'r"
  | Slept int
  | Did action "error + unit"
  | IsVisible string "error + bool"
  | Requested string "error + response"
  | Exited nat
  | Posted string string "error + wp_reply"
  | Readdir string "error + string list"
  | Listed string "error + s3_object list option"

record ('r, 'w) state =
  trace :: "'r event list"
  world :: 'w

type_synonym ('s, 'a) io = "'s \<Rightarrow> (error + 'a) \<times> 's"

text \<open>
  The outside world is any state machine over a type \<open>'w\<close>: it answers each call, by
  throwing or returning, and moves on. It never sees the trace.
\<close>

record datetime =
  year :: nat
  month :: nat
  day :: nat
  hours :: nat
  minutes :: nat
  seconds :: nat

record 'w env =
  elapse :: "int \<Rightarrow> 'w \<Rightarrow> 'w"
  clock :: "'w \<Rightarrow> datetime"
  act :: "action \<Rightarrow> 'w \<Rightarrow> (error + unit) \<times> 'w"
  visible :: "string \<Rightarrow> 'w \<Rightarrow> (error + bool) \<times> 'w"
  url :: "'w \<Rightarrow> string"
  request :: "string \<Rightarrow> 'w \<Rightarrow> (error + response) \<times> 'w"
  post :: "string \<Rightarrow> string \<Rightarrow> 'w \<Rightarrow> (error + wp_reply) \<times> 'w"
  list_dir :: "string \<Rightarrow> 'w \<Rightarrow> (error + string list) \<times> 'w"
  list_objects :: "string \<Rightarrow> 'w \<Rightarrow> (error + s3_object list option) \<times> 'w"

definition returnE :: "'a \<Rightarrow> ('s, 'a) io" where
  "returnE x s = (Inr x, s)"

definition throwE :: "error \<Rightarrow> ('s, 'a) io" where
  "throwE e s = (Inl e, s)"

text \<open>\<open>bindE m f\<close>: \<open>const x = await m; f x\<close>. \<open>catchE m h\<close>: \<open>try { m } catch (e) { h e }\<close>.\<close>

definition bindE :: "('s, 'a) io \<Rightarrow> ('a \<Rightarrow> ('s, 'b) io) \<Rightarrow> ('s, 'b) io" where
  "bindE m f s = (case m s of (Inl e, s') \<Rightarrow> (Inl e, s') | (Inr x, s') \<Rightarrow> f x s')"

definition catchE :: "('s, 'a) io \<Rightarrow> (error \<Rightarrow> ('s, 'a) io) \<Rightarrow> ('s, 'a) io" where
  "catchE m h s = (case m s of (Inl e, s') \<Rightarrow> h e s' | (Inr x, s') \<Rightarrow> (Inr x, s'))"

definition logged ::
  "((error + 'a) \<Rightarrow> 'r event) \<Rightarrow> ('w \<Rightarrow> (error + 'a) \<times> 'w) \<Rightarrow> (('r, 'w) state, 'a) io" where
  "logged ev call s =
     (case call (world s) of (r, w') \<Rightarrow> (r, s\<lparr>trace := trace s @ [ev r], world := w'\<rparr>))"

definition perform :: "'w env \<Rightarrow> action \<Rightarrow> (('r, 'w) state, unit) io" where
  "perform E a = logged (Did a) (act E a)"

definition isVisible :: "'w env \<Rightarrow> string \<Rightarrow> (('r, 'w) state, bool) io" where
  "isVisible E selector = logged (IsVisible selector) (visible E selector)"

definition get :: "'w env \<Rightarrow> string \<Rightarrow> (('r, 'w) state, response) io" where
  "get E u = logged (Requested u) (request E u)"

section \<open>The Retry Engine: \<open>sleep\<close> and \<open>withRetry\<close> (utils.js)\<close>

text \<open>\<open>sleep\<close> resolves after the timer: it cannot throw; meanwhile the world moves on.\<close>

definition sleep :: "'w env \<Rightarrow> int \<Rightarrow> (('r, 'w) state, unit) io" where
  "sleep E ms s =
     (Inr (), s\<lparr>trace := trace s @ [Slept ms], world := elapse E ms (world s)\<rparr>)"

text \<open>
  The \<open>for\<close> loop of \<open>withRetry\<close>, from the value \<open>attempt\<close> of its counter on.
  \<open>retries\<close> is a count, a natural number; the delays are integers. Before it sleeps,
  the \<open>catch\<close> block reads \<open>error.message\<close> for its warning; that read is outside the
  \<open>try\<close>, so when it throws, \<open>withRetry\<close> throws.
\<close>

function withRetry_loop ::
  "'w env \<Rightarrow> (('r, 'w) state, 'a) io \<Rightarrow> nat \<Rightarrow> int \<Rightarrow> int \<Rightarrow> nat \<Rightarrow> error
   \<Rightarrow> (('r, 'w) state, 'a) io" where
  "withRetry_loop E fn retries baseDelayMs maxDelayMs attempt lastError s =
     (if attempt \<le> retries + 1 then
        (case fn s of
           (Inr v, s') \<Rightarrow> (Inr v, s')
         | (Inl error, s') \<Rightarrow>
             if attempt \<le> retries then
               let delay = min (baseDelayMs * 2 ^ (attempt - 1)) maxDelayMs
               in (case message error of
                     None \<Rightarrow> (Inl typeError, s')
                   | Some msg \<Rightarrow>
                       withRetry_loop E fn retries baseDelayMs maxDelayMs (attempt + 1) error
                         (snd (sleep E delay s')))
             else withRetry_loop E fn retries baseDelayMs maxDelayMs (attempt + 1) error s')
      else (Inl lastError, s))"
  by pat_completeness auto
termination
  by (relation "measure (\<lambda>(E, fn, retries, b, m, attempt, l, s). retries + 2 - attempt)") auto

declare withRetry_loop.simps [simp del]

text \<open>The options object: a field left out takes its default.\<close>

record retry_options =
  opt_retries :: "nat option"
  opt_baseDelayMs :: "int option"
  opt_maxDelayMs :: "int option"

definition withRetry ::
  "'w env \<Rightarrow> (('r, 'w) state, 'a) io \<Rightarrow> retry_options \<Rightarrow> (('r, 'w) state, 'a) io" where
  "withRetry E fn options =
     (let retries = (case opt_retries options of None \<Rightarrow> 2 | Some r \<Rightarrow> r);
          baseDelayMs = (case opt_baseDelayMs options of None \<Rightarrow> 1500 | Some b \<Rightarrow> b);
          maxDelayMs = (case opt_maxDelayMs options of None \<Rightarrow> 30000 | Some m \<Rightarrow> m)
      in withRetry_loop E fn retries baseDelayMs maxDelayMs 1 Undefined)"

text \<open>
  To observe an operation wrapped by \<open>withRetry\<close>, each of its invocations is recorded
  with its outcome: \<open>invoke fn\<close> runs the operation \<open>fn\<close> of the outside world.
\<close>

definition invoke :: "('w \<Rightarrow> (error + 'r) \<times> 'w) \<Rightarrow> (('r, 'w) state, 'r) io" where
  "invoke fn = logged Invoked fn"

fun invocations :: "'r event list \<Rightarrow> (error + 'r) list" where
  "invocations [] = []"
| "invocations (Invoked r # evs) = r # invocations evs"
| "invocations (_ # evs) = invocations evs"

text \<open>
  The schedule the Retry Policy promises for a list of outcomes, the first of them being
  the outcome of attempt \<open>k\<close>: after each attempt but the last, a sleep of
  \<open>min (base * 2^(k-1)) maxDelay\<close>.
\<close>

fun backoff_schedule :: "int \<Rightarrow> int \<Rightarrow> nat \<Rightarrow> (error + 'r) list \<Rightarrow> 'r event list" where
  "backoff_schedule b m k [] = []"
| "backoff_schedule b m k [r] = [Invoked r]"
| "backoff_schedule b m k (r # r' # rs) =
     Invoked r # Slept (min (b * 2 ^ (k - 1)) m) # backoff_schedule b m (k + 1) (r' # rs)"

section \<open>Configuration and selector catalog (index.js, selectors.js)\<close>

text \<open>
  \<open>config\<close> as \<open>index.js\<close> builds it from the environment. The selector catalog
  \<open>selectors.js\<close> is a table of strings outside the sources at hand; the functions take
  it as a parameter.
\<close>

record config =
  baseUrl :: string
  loginUrl :: string
  exportUrl :: string
  username :: string
  password :: string
  target :: string
  keepHistory :: int
  screenshotOnError :: bool

record selectors =
  sel_cookieAccept :: "string list"
  sel_email :: "string list"
  sel_password :: "string list"
  sel_submit :: "string list"
  sel_accountIndicators :: "string list"

section \<open>The Resilient Action Primitives: \<open>clickFirst\<close> and \<open>fillFirst\<close> (index.js)\<close>

text \<open>
  One turn of the \<open>for\<close> loop of \<open>clickFirst\<close> and of \<open>fillFirst\<close>, which differ in the
  action only (\<open>click\<close> or \<open>fill\<close>): \<open>Some b\<close> stands for \<open>return b\<close>, \<open>None\<close> for going
  on to the next selector. The \<open>try\<close> block holds the lookup, the visibility check (whose
  own rejection \<open>.catch(() => false)\<close> turns into \<open>false\<close>) and the action; its \<open>catch\<close>
  goes on to the next selector. The list \<open>attempted\<close> of \<open>clickFirst\<close> only feeds a log
  line, and the \<open>options\<close> of \<open>clickFirst\<close> are passed by no caller.
\<close>

definition tryFirst ::
  "'w env \<Rightarrow> (string \<Rightarrow> action) \<Rightarrow> string \<Rightarrow> (('r, 'w) state, bool option) io" where
  "tryFirst E action selector =
     catchE
       (bindE (perform E (Locator selector)) (\<lambda>element.
        bindE (catchE (isVisible E selector) (\<lambda>e. returnE False)) (\<lambda>vis.
          if vis then bindE (perform E (action selector)) (\<lambda>_. returnE (Some True))
          else returnE None)))
       (\<lambda>e. returnE None)"

fun firstVisible ::
  "'w env \<Rightarrow> (string \<Rightarrow> action) \<Rightarrow> string list \<Rightarrow> (('r, 'w) state, bool) io" where
  "firstVisible E action [] = returnE False"
| "firstVisible E action (selector # rest) =
     bindE (tryFirst E action selector)
       (\<lambda>r. case r of Some b \<Rightarrow> returnE b | None \<Rightarrow> firstVisible E action rest)"

definition clickFirst :: "'w env \<Rightarrow> string list \<Rightarrow> (('r, 'w) state, bool) io" where
  "clickFirst E selectorList = firstVisible E Click selectorList"

definition fillFirst :: "'w env \<Rightarrow> string list \<Rightarrow> string \<Rightarrow> (('r, 'w) state, bool) io" where
  "fillFirst E selectorList v = firstVisible E (\<lambda>selector. Fill selector v) selectorList"

text \<open>
  What one turn of the loop leaves in the trace. A selector is passed over in four ways;
  it is hit when it is found, visible, and the action on it returns.
\<close>

datatype skip = LookupThrew error | VisibilityThrew error | NotVisible | ActionThrew error

fun skip_events :: "(string \<Rightarrow> action) \<Rightarrow> string \<Rightarrow> skip \<Rightarrow> 'r event list" where
  "skip_events action sel (LookupThrew e) = [Did (Locator sel) (Inl e)]"
| "skip_events action sel (VisibilityThrew e) =
     [Did (Locator sel) (Inr ()), IsVisible sel (Inl e)]"
| "skip_events action sel NotVisible =
     [Did (Locator sel) (Inr ()), IsVisible sel (Inr False)]"
| "skip_events action sel (ActionThrew e) =
     [Did (Locator sel) (Inr ()), IsVisible sel (Inr True), Did (action sel) (Inl e)]"

definition hit_events :: "(string \<Rightarrow> action) \<Rightarrow> string \<Rightarrow> 'r event list" where
  "hit_events action sel =
     [Did (Locator sel) (Inr ()), IsVisible sel (Inr True), Did (action sel) (Inr ())]"

section \<open>The Login State Machine: \<open>login\<close> (index.js)\<close>

text \<open>The diagnostic screenshot taken in the \<open>catch\<close> blocks of \<open>login\<close> and \<open>downloadCsv\<close>.\<close>

definition captureScreenshot :: "'w env \<Rightarrow> config \<Rightarrow> string \<Rightarrow> (('r, 'w) state, unit) io" where
  "captureScreenshot E cfg name =
     (if screenshotOnError cfg
      then bindE (perform E (Mkdir ''screenshots'')) (\<lambda>_. perform E (Screenshot name))
      else returnE ())"

text \<open>Signal 1 of the verification: the test on the current URL.\<close>

definition urlSignal :: "config \<Rightarrow> string \<Rightarrow> bool" where
  "urlSignal cfg currentUrl =
     (\<not> includes_str currentUrl ''/login''
      \<and> (includes_str currentUrl ''/account'' \<or> includes_str currentUrl ''/dashboard''
         \<or> currentUrl = baseUrl cfg @ ''/''))"

text \<open>
  Signal 2: the loop over the account indicators, run when signal 1 is false. Here the
  visibility check has no \<open>.catch\<close> of its own; the \<open>try\<close> around the turn catches it.
\<close>

fun indicatorSignal :: "'w env \<Rightarrow> string list \<Rightarrow> (('r, 'w) state, bool) io" where
  "indicatorSignal E [] = returnE False"
| "indicatorSignal E (indicator # rest) =
     bindE (catchE (bindE (perform E (Locator indicator)) (\<lambda>element. isVisible E indicator))
              (\<lambda>e. returnE False))
       (\<lambda>found. if found then returnE True else indicatorSignal E rest)"

text \<open>
  What the look at one account indicator leaves in the trace. An indicator is missed in
  three ways; it is seen when it is found and its visibility check answers true.
\<close>

datatype miss = LookupFailed error | CheckFailed error | Hidden

fun miss_events :: "string \<Rightarrow> miss \<Rightarrow> 'r event list" where
  "miss_events ind (LookupFailed e) = [Did (Locator ind) (Inl e)]"
| "miss_events ind (CheckFailed e) = [Did (Locator ind) (Inr ()), IsVisible ind (Inl e)]"
| "miss_events ind Hidden = [Did (Locator ind) (Inr ()), IsVisible ind (Inr False)]"

definition seen_events :: "string \<Rightarrow> 'r event list" where
  "seen_events ind = [Did (Locator ind) (Inr ()), IsVisible ind (Inr True)]"

text \<open>The verification at the end of \<open>login\<close>: from reading the URL to \<open>return true\<close>.\<close>

definition verifyLogin :: "'w env \<Rightarrow> config \<Rightarrow> selectors \<Rightarrow> (('r, 'w) state, bool) io" where
  "verifyLogin E cfg sels s =
     (let currentUrl = url E (world s) in
      bindE (if urlSignal cfg currentUrl then returnE True
             else indicatorSignal E (sel_accountIndicators sels))
        (\<lambda>isLoggedIn.
           if \<not> isLoggedIn
           then throwE (Error
             ''Login verification failed - still on login page or no account indicators found'')
           else returnE True) s)"

text \<open>The steps of \<open>login\<close> before the verification: from the navigation to the wait.\<close>

definition submitLogin :: "'w env \<Rightarrow> config \<Rightarrow> selectors \<Rightarrow> (('r, 'w) state, unit) io" where
  "submitLogin E cfg sels =
     bindE (perform E (Goto (loginUrl cfg))) (\<lambda>_.
     bindE (clickFirst E (sel_cookieAccept sels)) (\<lambda>cookieAccepted.
     bindE (if cookieAccepted then sleep E 1000 else returnE ()) (\<lambda>_.
     bindE (fillFirst E (sel_email sels) (username cfg)) (\<lambda>emailFilled.
     if \<not> emailFilled then throwE (Error ''Could not find email input field'') else
     bindE (fillFirst E (sel_password sels) (password cfg)) (\<lambda>passwordFilled.
     if \<not> passwordFilled then throwE (Error ''Could not find password input field'') else
     bindE (clickFirst E (sel_submit sels)) (\<lambda>submitClicked.
     bindE (if \<not> submitClicked then perform E (Press ''Enter'') else returnE ()) (\<lambda>_.
     perform E WaitForLoadState)))))))"

definition login :: "'w env \<Rightarrow> config \<Rightarrow> selectors \<Rightarrow> (('r, 'w) state, bool) io" where
  "login E cfg sels =
     catchE (bindE (submitLogin E cfg sels) (\<lambda>_. verifyLogin E cfg sels))
       (\<lambda>error. bindE (captureScreenshot E cfg ''login-error'') (\<lambda>_. throwE error))"

section \<open>The Download Flow: \<open>downloadCsv\<close> and \<open>downloadWithRelogin\<close> (index.js)\<close>

text \<open>A number in a template string: its decimal digits.\<close>

fun digits :: "nat \<Rightarrow> string" where
  "digits n =
     (if n < 10 then [char_of (48 + n)] else digits (n div 10) @ [char_of (48 + n mod 10)])"

declare digits.simps [simp del]

text \<open>\<open>await\<close> of a promise that has already settled.\<close>

definition awaitE :: "error + 'a \<Rightarrow> ('s, 'a) io" where
  "awaitE r s = (r, s)"

definition downloadCsv ::
  "'w env \<Rightarrow> config \<Rightarrow> (('r, 'w) state, string \<times> string \<times> nat) io" where
  "downloadCsv E cfg =
     catchE
       (bindE (get E (exportUrl cfg)) (\<lambda>response.
          let status = resp_status response;
              contentType = (case resp_contentType response of None \<Rightarrow> [] | Some t \<Rightarrow> t)
          in bindE (awaitE (resp_body response)) (\<lambda>buffer.
             if status \<noteq> 200 then throwE (Error (''HTTP '' @ digits status @ '' received''))
             else if \<not> ensureCsv buffer contentType
             then throwE (Error ''Received HTML instead of CSV - session may have expired'')
             else returnE (buffer, contentType, length buffer))))
       (\<lambda>error. bindE (captureScreenshot E cfg ''download-error'') (\<lambda>_. throwE error))"

definition downloadWithRelogin ::
  "'w env \<Rightarrow> config \<Rightarrow> selectors \<Rightarrow> (('r, 'w) state, string \<times> string \<times> nat) io" where
  "downloadWithRelogin E cfg sels =
     catchE (downloadCsv E cfg)
       (\<lambda>error. case message error of
            None \<Rightarrow> throwE typeError
          | Some msg \<Rightarrow>
              if includes_str msg ''HTML instead of CSV''
              then bindE (login E cfg sels) (\<lambda>_. downloadCsv E cfg)
              else throwE error)"

section \<open>The agent: \<open>generateTimestamp\<close> (utils.js), \<open>runAgent\<close> and the module body (index.js)\<close>

definition padStart2 :: "string \<Rightarrow> string" where
  "padStart2 t = replicate (2 - length t) (CHR ''0'') @ t"

definition generateTimestamp :: "'w env \<Rightarrow> (('r, 'w) state, string) io" where
  "generateTimestamp E s =
     (let now = clock E (world s) in
      returnE (digits (year now) @ padStart2 (digits (month now + 1))
               @ padStart2 (digits (day now)) @ ''-'' @ padStart2 (digits (hours now))
               @ padStart2 (digits (minutes now)) @ padStart2 (digits (seconds now))) s)"

text \<open>
  The \<open>try\<close> block of \<open>runAgent\<close>. The storage module is the delivery collaborator: its
  \<open>deliver\<close> and \<open>pruneHistory\<close> are calls to the outside, recorded with their arguments.
\<close>

definition agentSteps :: "'w env \<Rightarrow> config \<Rightarrow> selectors \<Rightarrow> (('r, 'w) state, unit) io" where
  "agentSteps E cfg sels =
     bindE (perform E Launch) (\<lambda>browser.
     bindE (perform E NewContext) (\<lambda>context.
     bindE (perform E NewPage) (\<lambda>page.
     bindE (withRetry E (login E cfg sels)
              \<lparr>opt_retries = Some 2, opt_baseDelayMs = Some 3000, opt_maxDelayMs = None\<rparr>) (\<lambda>_.
     bindE (withRetry E (downloadWithRelogin E cfg sels)
              \<lparr>opt_retries = Some 2, opt_baseDelayMs = Some 2000, opt_maxDelayMs = None\<rparr>)
       (\<lambda>(buffer, contentType, bytes).
     bindE (generateTimestamp E) (\<lambda>timestamp.
     bindE (perform E (Deliver buffer timestamp)) (\<lambda>_.
     perform E (PruneHistory (target cfg) (keepHistory cfg)))))))))"

text \<open>\<open>process.exit(code)\<close> ends the run at once: no \<open>finally\<close> block runs after it.\<close>

definition exit :: "nat \<Rightarrow> ('r, 'w) state \<Rightarrow> nat \<times> ('r, 'w) state" where
  "exit c s = (c, s\<lparr>trace := trace s @ [Exited c]\<rparr>)"

text \<open>\<open>await x.close().catch(() => {})\<close>.\<close>

definition closeQuietly :: "'w env \<Rightarrow> action \<Rightarrow> ('r, 'w) state \<Rightarrow> ('r, 'w) state" where
  "closeQuietly E a s = snd (catchE (perform E a) (\<lambda>e. returnE ()) s)"

text \<open>\<open>runAgent\<close> returns the exit code of the process next to the final state.\<close>

definition runAgent ::
  "'w env \<Rightarrow> config \<Rightarrow> selectors \<Rightarrow> ('r, 'w) state \<Rightarrow> nat \<times> ('r, 'w) state" where
  "runAgent E cfg sels s =
     (case agentSteps E cfg sels s of
        (Inl error, s') \<Rightarrow> exit 1 s'
      | (Inr finished, s') \<Rightarrow>
          (0, closeQuietly E CloseBrowser
                (closeQuietly E CloseContext (closeQuietly E ClosePage s'))))"

text \<open>The module body: the check of the credentials, then \<open>runAgent()\<close>.\<close>

definition main ::
  "'w env \<Rightarrow> config \<Rightarrow> selectors \<Rightarrow> ('r, 'w) state \<Rightarrow> nat \<times> ('r, 'w) state" where
  "main E cfg sels s =
     (if username cfg = [] \<or> password cfg = [] then exit 1 s else runAgent E cfg sels s)"

section \<open>The storage module, most recent revision (storage.js)\<close>

text \<open>
  The environment variables \<open>storage.js\<close> reads, an unset one being the empty string
  (both are falsy), and \<open>__dirname\<close>, the directory the module is installed in.
\<close>

record storage_config =
  TARGET :: string
  WP_DEST_FILE :: string
  WP_BASE_URL :: string
  WP_USER :: string
  WP_APP_PASS :: string
  S3_ENDPOINT :: string
  S3_BUCKET :: string
  S3_ACCESS_KEY :: string
  S3_SECRET_KEY :: string
  S3_KEY_PREFIX :: string
  S3_KEY_PREFIX_HISTORY :: string
  dirname :: string

text \<open>
  \<open>path.join\<close> and \<open>path.normalize\<close> of Node's \<open>path\<close> module, as they are on POSIX.
  \<open>join\<close> puts a slash between its non-empty arguments and normalises the result:
  empty segments and \<open>.\<close> are dropped; \<open>..\<close> takes away the segment before it, and
  where there is none it is kept in a relative path and dropped in an absolute one; a
  trailing slash is kept.
\<close>

fun splitOn :: "char \<Rightarrow> string \<Rightarrow> string list" where
  "splitOn sep [] = [[]]"
| "splitOn sep (c # cs) =
     (let rest = splitOn sep cs in if c = sep then [] # rest else (c # hd rest) # tl rest)"

fun joinWith :: "string \<Rightarrow> string list \<Rightarrow> string" where
  "joinWith sep [] = []"
| "joinWith sep [x] = x"
| "joinWith sep (x # y # ys) = x @ sep @ joinWith sep (y # ys)"

fun normalizeString :: "bool \<Rightarrow> string list \<Rightarrow> string list \<Rightarrow> string list" where
  "normalizeString allowAboveRoot res [] = res"
| "normalizeString allowAboveRoot res (segment # segments) =
     normalizeString allowAboveRoot
       (if segment = [] \<or> segment = ''.'' then res
        else if segment = ''..'' then
          (if res \<noteq> [] \<and> last res \<noteq> ''..'' then butlast res
           else if allowAboveRoot then res @ [''..''] else res)
        else res @ [segment])
       segments"

definition normalize :: "string \<Rightarrow> string" where
  "normalize path =
     (if path = [] then ''.''
      else
        let isAbsolute = (hd path = CHR ''/'');
            trailingSeparator = (last path = CHR ''/'');
            normalized = joinWith ''/'' (normalizeString (\<not> isAbsolute) [] (splitOn (CHR ''/'') path))
        in if normalized = []
           then (if isAbsolute then ''/'' else if trailingSeparator then ''./'' else ''.'')
           else (if isAbsolute then ''/'' else []) @ normalized
                @ (if trailingSeparator then ''/'' else []))"

definition path_join :: "string list \<Rightarrow> string" where
  "path_join args =
     (let joined = joinWith ''/'' (filter (\<lambda>arg. arg \<noteq> []) args)
      in if joined = [] then ''.'' else normalize joined)"

text \<open>\<open>v || d\<close> on strings.\<close>

definition orDefault :: "string \<Rightarrow> string \<Rightarrow> string" where
  "orDefault v d = (if v = [] then d else v)"

text \<open>
  \<open>uploadToWordPress\<close>. The reply's data, which the source prints into its error
  messages, is left out of them.
\<close>

definition uploadToWordPress ::
  "'w env \<Rightarrow> storage_config \<Rightarrow> string \<Rightarrow> string \<Rightarrow> (('r, 'w) state, unit) io" where
  "uploadToWordPress E env buffer filename =
     (if WP_BASE_URL env = [] \<or> WP_USER env = [] \<or> WP_APP_PASS env = []
      then throwE (Error ''Missing WordPress configuration (WP_BASE_URL, WP_USER, WP_APP_PASS)'')
      else
        catchE
          (bindE (logged (Posted filename buffer) (post E filename buffer)) (\<lambda>reply.
             case reply of
               Ok \<Rightarrow> returnE ()
             | NotOk \<Rightarrow> throwE (Error ''WordPress upload failed'')
             | HttpError st \<Rightarrow> throwE (Error (''WordPress API error '' @ digits st))))
          (\<lambda>error. if error = Undefined then throwE typeError else throwE error))"

definition uploadToS3 ::
  "'w env \<Rightarrow> storage_config \<Rightarrow> string \<Rightarrow> string \<Rightarrow> bool \<Rightarrow> (('r, 'w) state, unit) io" where
  "uploadToS3 E env buffer filename isHistory =
     (if S3_ENDPOINT env = [] \<or> S3_BUCKET env = [] \<or> S3_ACCESS_KEY env = []
         \<or> S3_SECRET_KEY env = []
      then throwE (Error ''Missing S3 configuration'')
      else
        let key = (if isHistory
                   then orDefault (S3_KEY_PREFIX_HISTORY env) ''ingrosmart/history/'' @ filename
                   else orDefault (S3_KEY_PREFIX env) ''ingrosmart/ingrosmart_catalog.csv'')
        in catchE (perform E (PutObject key buffer))
             (\<lambda>error. case message error of
                  None \<Rightarrow> throwE typeError
                | Some msg \<Rightarrow> throwE (Error (''S3 upload failed: '' @ msg))))"

definition saveToFileSystem ::
  "'w env \<Rightarrow> storage_config \<Rightarrow> string \<Rightarrow> string \<Rightarrow> bool \<Rightarrow> (('r, 'w) state, string) io" where
  "saveToFileSystem E env buffer filename isHistory =
     (let outputDir = path_join [dirname env, ''..'', ''output''];
          historyDir = path_join [outputDir, ''history''] in
      bindE (perform E (Mkdir historyDir)) (\<lambda>_.
        let filePath = (if isHistory then path_join [historyDir, filename]
                        else path_join [outputDir, ''ingrosmart_catalog.csv''])
        in bindE (perform E (WriteFile filePath buffer)) (\<lambda>_. returnE filePath)))"

text \<open>The \<open>switch\<close> of \<open>deliver\<close> on the target, shared by the two revisions.\<close>

definition deliverTo ::
  "'w env \<Rightarrow> storage_config \<Rightarrow> string \<Rightarrow> string \<Rightarrow> string \<Rightarrow> string
   \<Rightarrow> (('r, 'w) state, unit) io" where
  "deliverTo E env tgt buffer catalogFilename historyFilename =
     (if tgt = ''wp'' then
        bindE (uploadToWordPress E env buffer catalogFilename) (\<lambda>_.
          uploadToWordPress E env buffer historyFilename)
      else if tgt = ''s3'' then
        bindE (uploadToS3 E env buffer catalogFilename False) (\<lambda>_.
          uploadToS3 E env buffer historyFilename True)
      else
        bindE (saveToFileSystem E env buffer catalogFilename False) (\<lambda>_.
        bindE (saveToFileSystem E env buffer historyFilename True) (\<lambda>_. returnE ())))"

text \<open>The name of the history copy in the most recent revision: one of two slots.\<close>

definition backupFilename :: "nat \<Rightarrow> string" where
  "backupFilename currentMinute =
     (let backupSlot = (if currentMinute < 30 then ''1'' else ''2'')
      in ''ingrosmart_backup_'' @ backupSlot @ ''.csv'')"

definition deliver ::
  "'w env \<Rightarrow> storage_config \<Rightarrow> string \<Rightarrow> string \<Rightarrow> (('r, 'w) state, unit) io" where
  "deliver E env buffer timestamp s =
     (let tgt = orDefault (TARGET env) ''fs'';
          catalogFilename = orDefault (WP_DEST_FILE env) ''ingrosmart_catalog.csv'';
          currentMinute = minutes (clock E (world s));
          historyFilename = backupFilename currentMinute
      in deliverTo E env tgt buffer catalogFilename historyFilename s)"

definition pruneHistory :: "string \<Rightarrow> int \<Rightarrow> (('r, 'w) state, unit) io" where
  "pruneHistory tgt keepCount = returnE ()"

section \<open>The storage module, older revision\<close>

definition deliver_v1 ::
  "'w env \<Rightarrow> storage_config \<Rightarrow> string \<Rightarrow> string \<Rightarrow> (('r, 'w) state, unit) io" where
  "deliver_v1 E env buffer timestamp =
     (let tgt = orDefault (TARGET env) ''fs'';
          historyFilename = ''ingrosmart-'' @ timestamp @ ''.csv'';
          catalogFilename = orDefault (WP_DEST_FILE env) ''ingrosmart_catalog.csv''
      in deliverTo E env tgt buffer catalogFilename historyFilename)"

fun unlinkAll :: "'w env \<Rightarrow> string \<Rightarrow> string list \<Rightarrow> (('r, 'w) state, unit) io" where
  "unlinkAll E dir [] = returnE ()"
| "unlinkAll E dir (file # rest) =
     bindE (perform E (Unlink (path_join [dir, file]))) (\<lambda>_. unlinkAll E dir rest)"

text \<open>The history files of the older revision, newest first: the order of their names.\<close>

definition csvFilesOf :: "string list \<Rightarrow> string list" where
  "csvFilesOf files =
     rev (sort (filter (\<lambda>f. prefix ''ingrosmart-'' f \<and> suffix ''.csv'' f) files))"

definition pruneLocalHistory_v1 ::
  "'w env \<Rightarrow> storage_config \<Rightarrow> int \<Rightarrow> (('r, 'w) state, unit) io" where
  "pruneLocalHistory_v1 E env keepCount =
     (let historyDir = path_join [dirname env, ''..'', ''output'', ''history''] in
      catchE
        (bindE (logged (Readdir historyDir) (list_dir E historyDir)) (\<lambda>files.
           let csvFiles = csvFilesOf files in
           if int (length csvFiles) > keepCount
           then unlinkAll E historyDir (drop (nat keepCount) csvFiles)
           else returnE ()))
        (\<lambda>error. if error = Undefined then throwE typeError
                  else if code error \<noteq> Some ''ENOENT'' then throwE error else returnE ()))"

fun deleteAll :: "'w env \<Rightarrow> s3_object list \<Rightarrow> (('r, 'w) state, unit) io" where
  "deleteAll E [] = returnE ()"
| "deleteAll E (obj # rest) = bindE (perform E (DeleteObject (Key obj))) (\<lambda>_. deleteAll E rest)"

text \<open>The listed history objects, newest first: by \<open>LastModified\<close>, with a stable sort.\<close>

definition sortedObjectsOf :: "s3_object list \<Rightarrow> s3_object list" where
  "sortedObjectsOf contents =
     sort_key (\<lambda>obj. - LastModified obj)
       (filter (\<lambda>obj. includes_str (Key obj) ''ingrosmart-'' \<and> suffix ''.csv'' (Key obj)) contents)"

definition pruneS3History_v1 ::
  "'w env \<Rightarrow> storage_config \<Rightarrow> int \<Rightarrow> (('r, 'w) state, unit) io" where
  "pruneS3History_v1 E env keepCount =
     (if S3_ENDPOINT env = [] \<or> S3_BUCKET env = [] then returnE ()
      else
        let keyPrefixHistory = orDefault (S3_KEY_PREFIX_HISTORY env) ''ingrosmart/history/'' in
        bindE (logged (Listed keyPrefixHistory) (list_objects E keyPrefixHistory)) (\<lambda>contents.
          case contents of
            None \<Rightarrow> returnE ()
          | Some objects \<Rightarrow>
              if int (length objects) \<le> keepCount then returnE ()
              else
                let sorted = sortedObjectsOf objects in
                if int (length sorted) \<le> keepCount then returnE ()
                else deleteAll E (drop (nat keepCount) sorted)))"

definition pruneHistory_v1 ::
  "'w env \<Rightarrow> storage_config \<Rightarrow> string \<Rightarrow> int \<Rightarrow> (('r, 'w) state, unit) io" where
  "pruneHistory_v1 E env tgt keepCount =
     (if keepCount \<le> 0 then returnE ()
      else
        catchE
          (if tgt = ''s3'' then pruneS3History_v1 E env keepCount
           else if tgt = ''fs'' then pruneLocalHistory_v1 E env keepCount
           else returnE ())
          (\<lambda>error. case message error of None \<Rightarrow> throwE typeError | Some msg \<Rightarrow> returnE ()))"

section \<open>Reading traces\<close>





text \<open>
  The events of the page other than navigations and fetches: lookups, visibility checks,
  clicks, fills, key presses, waits, screenshots and sleeps.
\<close>

fun formEvent :: "'r event \<Rightarrow> bool" where
  "formEvent (Did (Locator sel) r) = True"
| "formEvent (Did (Click sel) r) = True"
| "formEvent (Did (Fill sel v) r) = True"
| "formEvent (Did (Press k) r) = True"
| "formEvent (Did WaitForLoadState r) = True"
| "formEvent (Did (Mkdir d) r) = True"
| "formEvent (Did (Screenshot n) r) = True"
| "formEvent (IsVisible sel r) = True"
| "formEvent (Slept ms) = True"
| "formEvent _ = False"

text \<open>\<open>emits P f\<close>: whatever \<open>f\<close> adds to the trace satisfies \<open>P\<close>.\<close>

definition emits :: "('r event \<Rightarrow> bool) \<Rightarrow> (('r, 'w) state, 'a) io \<Rightarrow> bool" where
  "emits P f \<longleftrightarrow>
     (\<forall>s r s'. f s = (r, s') \<longrightarrow> (\<exists>new. trace s' = trace s @ new \<and> list_all P new))"

text \<open>The response of the export endpoint as \<open>downloadCsv\<close> reads it.\<close>

definition contentTypeOf :: "response \<Rightarrow> string" where
  "contentTypeOf response = (case resp_contentType response of None \<Rightarrow> [] | Some t \<Rightarrow> t)"




text \<open>
  What the \<open>try\<close> block of \<open>downloadCsv\<close> makes of the outcome of the fetch: the error it
  throws or the value it returns.
\<close>

definition checkResponse :: "error + response \<Rightarrow> error + (string \<times> string \<times> nat)" where
  "checkResponse fetched =
     (case fetched of
        Inl e \<Rightarrow> Inl e
      | Inr response \<Rightarrow>
          (case resp_body response of
             Inl e \<Rightarrow> Inl e
           | Inr buffer \<Rightarrow>
               if resp_status response \<noteq> 200
               then Inl (Error (''HTTP '' @ digits (resp_status response) @ '' received''))
               else if \<not> ensureCsv buffer (contentTypeOf response)
               then Inl (Error ''Received HTML instead of CSV - session may have expired'')
               else Inr (buffer, contentTypeOf response, length buffer)))"

text \<open>A buffer is accepted in a trace when the trace holds the fetch that brought it.\<close>

definition accepted :: "config \<Rightarrow> 'r event list \<Rightarrow> string \<Rightarrow> bool" where
  "accepted cfg tr buffer \<longleftrightarrow>
     (\<exists>response. Requested (exportUrl cfg) (Inr response) \<in> set tr
        \<and> resp_status response = 200 \<and> resp_body response = Inr buffer
        \<and> ensureCsv buffer (contentTypeOf response))"

fun isDelivery :: "'r event \<Rightarrow> bool" where
  "isDelivery (Did (Deliver buffer timestamp) r) = True"
| "isDelivery _ = False"

section \<open>Reading the traces of the storage module\<close>

text \<open>The places written to, and the places removed, in the order of the calls.\<close>

fun destinations :: "'r event list \<Rightarrow> string list" where
  "destinations [] = []"
| "destinations (Posted filename buffer r # evs) = filename # destinations evs"
| "destinations (Did (PutObject key buffer) r # evs) = key # destinations evs"
| "destinations (Did (WriteFile path buffer) r # evs) = path # destinations evs"
| "destinations (ev # evs) = destinations evs"

fun removals :: "'r event list \<Rightarrow> string list" where
  "removals [] = []"
| "removals (Did (Unlink path) r # evs) = path # removals evs"
| "removals (Did (DeleteObject key) r # evs) = key # removals evs"
| "removals (ev # evs) = removals evs"

text \<open>Where \<open>deliver\<close> puts the catalog and the history copy, by target.\<close>

definition catalogDestination :: "storage_config \<Rightarrow> string" where
  "catalogDestination env =
     (let tgt = orDefault (TARGET env) ''fs'' in
      if tgt = ''wp'' then orDefault (WP_DEST_FILE env) ''ingrosmart_catalog.csv''
      else if tgt = ''s3'' then orDefault (S3_KEY_PREFIX env) ''ingrosmart/ingrosmart_catalog.csv''
      else path_join [path_join [dirname env, ''..'', ''output''], ''ingrosmart_catalog.csv''])"

definition historyDestination :: "storage_config \<Rightarrow> string \<Rightarrow> string" where
  "historyDestination env historyFilename =
     (let tgt = orDefault (TARGET env) ''fs'' in
      if tgt = ''wp'' then historyFilename
      else if tgt = ''s3''
      then orDefault (S3_KEY_PREFIX_HISTORY env) ''ingrosmart/history/'' @ historyFilename
      else path_join [path_join [path_join [dirname env, ''..'', ''output''], ''history''],
                      historyFilename])"

text \<open>What the older revision sets out to delete: all but the first \<open>keepCount\<close>, newest first.\<close>

definition localDeletions :: "storage_config \<Rightarrow> int \<Rightarrow> string list \<Rightarrow> string list" where
  "localDeletions env keepCount files =
     map (\<lambda>file. path_join [path_join [dirname env, ''..'', ''output'', ''history''], file])
       (drop (nat keepCount) (csvFilesOf files))"

definition s3Deletions :: "int \<Rightarrow> s3_object list \<Rightarrow> string list" where
  "s3Deletions keepCount objects = map Key (drop (nat keepCount) (sortedObjectsOf objects))"

text \<open>One upload or save: no removal, and one write to the given place unless it throws first.\<close>

definition writesTo :: "string \<Rightarrow> 'r event list \<Rightarrow> (error + 'a) \<Rightarrow> bool" where
  "writesTo dest new r \<longleftrightarrow>
     removals new = [] \<and> (destinations new = [dest] \<or> (destinations new = [] \<and> isl r))"

text \<open>
  A pruning run carried out against a plan, after the listing: the calls are the deletions
  of the plan, one by one in its order and nothing else; each is made once the one before
  it has returned, and a deletion that throws is the last call of the run.
\<close>

fun followsPlan :: "(string \<Rightarrow> action) \<Rightarrow> string list \<Rightarrow> 'r event list \<Rightarrow> bool" where
  "followsPlan delete [] rest = (rest = [])"
| "followsPlan delete (place # planned) [] = False"
| "followsPlan delete (place # planned) (Did a (Inr done) # rest) =
     (a = delete place \<and> followsPlan delete planned rest)"
| "followsPlan delete (place # planned) (Did a (Inl e) # rest) =
     (a = delete place \<and> rest = [])"
| "followsPlan delete (place # planned) (ev # rest) = False"
section \<open>Worlds for the examples\<close>

text \<open>A world for the examples: an operation that fails a given number of times, then succeeds.\<close>

definition flaky :: "nat \<Rightarrow> nat \<Rightarrow> (error + string) \<times> nat" where
  "flaky failures attempts =
     (if attempts < failures then Inl (Error ''Test retry error'') else Inr ''success'',
      attempts + 1)"

text \<open>An operation that throws \<open>undefined\<close>: a promise rejected with no reason.\<close>

definition rejects :: "nat \<Rightarrow> (error + string) \<times> nat" where
  "rejects attempts = (Inl Undefined, attempts + 1)"

definition idle_env :: "nat env" where
  "idle_env =
     \<lparr>elapse = (\<lambda>ms w. w),
      clock = (\<lambda>w. \<lparr>year = 2024, month = 0, day = 1, hours = 0, minutes = 0, seconds = 0\<rparr>),
      act = (\<lambda>a w. (Inr (), w)), visible = (\<lambda>sel w. (Inr False, w)),
      url = (\<lambda>w. []), request = (\<lambda>u w. (Inl (Error ''offline''), w)),
      post = (\<lambda>f b w. (Inl (Error ''offline''), w)),
      list_dir = (\<lambda>d w. (Inr [], w)), list_objects = (\<lambda>p w. (Inr None, w))\<rparr>"

text \<open>
  A scripted site: a fixed current URL, the selectors that are visible, the calls that
  throw, the answers the export endpoint gives in turn, and the files of the history
  directory.
\<close>

record sim =
  sim_url :: string
  sim_visible :: "string list"
  sim_broken :: "action list"
  sim_responses :: "(error + response) list"
  sim_files :: "string list"

definition sim_env :: "sim env" where
  "sim_env =
     \<lparr>elapse = (\<lambda>ms w. w),
      clock = (\<lambda>w. \<lparr>year = 2024, month = 0, day = 5, hours = 9, minutes = 7, seconds = 30\<rparr>),
      act = (\<lambda>a w. (if a \<in> set (sim_broken w) then Inl (Error ''Timeout 30000ms exceeded'')
                     else Inr (), w)),
      visible = (\<lambda>sel w. (Inr (sel \<in> set (sim_visible w)), w)),
      url = sim_url,
      request = (\<lambda>u w. case sim_responses w of
                   [] \<Rightarrow> (Inl (Error ''net::ERR_CONNECTION_REFUSED''), w)
                 | r # rs \<Rightarrow> (r, w\<lparr>sim_responses := rs\<rparr>)),
      post = (\<lambda>f b w. (Inr Ok, w)),
      list_dir = (\<lambda>d w. (Inr (sim_files w), w)),
      list_objects = (\<lambda>p w. (Inr None, w))\<rparr>"

definition cfg0 :: config where
  "cfg0 = \<lparr>baseUrl = ''https://www.ingrosmart.it'',
           loginUrl = ''https://www.ingrosmart.it/customer/account/login/'',
           exportUrl = ''https://www.ingrosmart.it/datacomcontroller/agent/productExport/'',
           username = ''user@example.com'', password = ''secret'', target = ''fs'',
           keepHistory = 10, screenshotOnError = False\<rparr>"

text \<open>The same configuration with the base URL written with its trailing slash.\<close>

definition cfg1 :: config where
  "cfg1 = cfg0\<lparr>baseUrl := ''https://www.ingrosmart.it/''\<rparr>"

definition sels0 :: selectors where
  "sels0 = \<lparr>sel_cookieAccept = [''#accept-cookies''],
            sel_email = [''#email'', ''input[name=email]''],
            sel_password = [''#pass''], sel_submit = [''#send2'', ''button[type=submit]''],
            sel_accountIndicators = [''.customer-welcome'', ''a.logout'']\<rparr>"

definition htmlPage :: response where
  "htmlPage = \<lparr>resp_status = 200, resp_contentType = Some ''text/html; charset=UTF-8'',
               resp_body = Inr ''<!DOCTYPE html><html><body>Login</body></html>''\<rparr>"

definition csvFile :: response where
  "csvFile = \<lparr>resp_status = 200, resp_contentType = Some ''text/csv'',
              resp_body = Inr (''id,name,price'' @ [CHR 0x0A] @ ''1,Product,100'')\<rparr>"

definition env0 :: storage_config where
  "env0 = \<lparr>TARGET = [], WP_DEST_FILE = [], WP_BASE_URL = [], WP_USER = [], WP_APP_PASS = [],
           S3_ENDPOINT = [], S3_BUCKET = [], S3_ACCESS_KEY = [], S3_SECRET_KEY = [],
           S3_KEY_PREFIX = [], S3_KEY_PREFIX_HISTORY = [], dirname = ''/app/src''\<rparr>"


text \<open>The scripted site with the login form in place and the account page shown.\<close>

definition site :: "action list \<Rightarrow> (error + response) list \<Rightarrow> sim" where
  "site broken responses =
     \<lparr>sim_url = ''https://www.ingrosmart.it/customer/account/'',
      sim_visible = [''input[name=email]'', ''#pass'', ''button[type=submit]''],
      sim_broken = broken, sim_responses = responses, sim_files = []\<rparr>"

section \<open>Facts about the string functions\<close>

lemma includes_iff_sublist: "includes_str s t \<longleftrightarrow> sublist t s"
  by (induction s) (auto simp: sublist_Cons_right)

lemma includes_char: "includes_str s [c] \<longleftrightarrow> c \<in> set s"
  by (induction s) auto

lemma set_trim: "set (trim s) \<subseteq> set s"
proof
  fix c
  assume "c \<in> set (trim s)"
  then have "c \<in> set (dropWhile isWhiteSpace (rev (dropWhile isWhiteSpace s)))"
    by (simp add: trim_def)
  then have "c \<in> set (rev (dropWhile isWhiteSpace s))"
    by (rule set_dropWhileD)
  then have "c \<in> set (dropWhile isWhiteSpace s)"
    by simp
  then show "c \<in> set s"
    by (rule set_dropWhileD)
qed

text \<open>A pattern that neither starts nor ends with white space survives \<open>trim\<close>.\<close>

lemma sublist_trim:
  assumes "sublist t s" and "t \<noteq> []" and "\<not> isWhiteSpace (hd t)" and "\<not> isWhiteSpace (last t)"
  shows "sublist t (trim s)"
proof -
  from assms(1) obtain ps ss where s: "s = ps @ t @ ss"
    by (auto simp: sublist_def)
  from assms(2) obtain a t' where t: "t = a # t'"
    by (cases t) auto
  from assms(2) obtain t'' b where tb: "t = t'' @ [b]"
    by (cases t rule: rev_cases) auto
  have a: "\<not> isWhiteSpace a" using assms(3) t by simp
  have b: "\<not> isWhiteSpace b" using assms(4) tb by simp
  have "dropWhile isWhiteSpace s = dropWhile isWhiteSpace ps @ t @ ss"
    using a by (simp add: s t dropWhile_append3)
  then have "rev (dropWhile isWhiteSpace s) = rev ss @ b # (rev t'' @ rev (dropWhile isWhiteSpace ps))"
    by (simp add: tb)
  then have "dropWhile isWhiteSpace (rev (dropWhile isWhiteSpace s))
             = dropWhile isWhiteSpace (rev ss) @ b # (rev t'' @ rev (dropWhile isWhiteSpace ps))"
    using b by (simp add: dropWhile_append3)
  then have "trim s = dropWhile isWhiteSpace ps @ t @ rev (dropWhile isWhiteSpace (rev ss))"
    by (simp add: trim_def tb)
  then show ?thesis
    by (auto simp: sublist_def)
qed

lemma htmlMarkers_no_space:
  assumes "marker \<in> set htmlMarkers"
  shows "ascii marker \<noteq> [] \<and> \<not> isWhiteSpace (hd (ascii marker))
         \<and> \<not> isWhiteSpace (last (ascii marker))"
  using assms by (auto simp: htmlMarkers_def isWhiteSpace_def ascii_def)

text \<open>\<open>trim\<close> adds no delimiter and no line break.\<close>

lemma hasDelimiters_trim: "hasDelimiters (trim s) \<Longrightarrow> hasDelimiters s"
  using set_trim [of s] by (auto simp: hasDelimiters_def ascii_def includes_char)

lemma hasNewlines_trim: "hasNewlines (trim s) \<Longrightarrow> hasNewlines s"
  using set_trim [of s] by (auto simp: hasNewlines_def ascii_def includes_char)

lemma sample_size: "take (min (length buffer) 2048) buffer = take 2048 buffer"
  by (simp add: min_def)

section \<open>Facts about \<open>withRetry\<close>\<close>

lemma invocations_schedule: "invocations (backoff_schedule b m k rs) = rs"
  by (induction b m k rs rule: backoff_schedule.induct) auto

lemma withRetry_loop_done:
  "\<not> attempt \<le> retries + 1 \<Longrightarrow>
   withRetry_loop E fn retries b m attempt lastError s = (Inl lastError, s)"
  by (simp add: withRetry_loop.simps)

lemma withRetry_loop_trace:
  assumes "attempt \<le> retries + 1"
    and "withRetry_loop E (invoke fn) retries b m attempt lastError s = (res, s1)"
  shows "\<exists>outs. outs \<noteq> [] \<and> trace s1 = trace s @ backoff_schedule b m attempt outs
           \<and> attempt + length outs \<le> retries + 2
           \<and> (\<forall>r \<in> set (butlast outs). isl r \<and> r \<noteq> Inl Undefined)
           \<and> (case last outs of Inr v \<Rightarrow> res = Inr v
               | Inl e \<Rightarrow> if attempt + length outs = retries + 2 then res = Inl e
                          else e = Undefined \<and> res = Inl typeError)"
  using assms
proof (induction E "invoke fn" retries b m attempt lastError s rule: withRetry_loop.induct)
  case (1 E retries b m attempt lastError s)
  obtain r w' where fn: "fn (world s) = (r, w')"
    by (cases "fn (world s)")
  define s' where "s' = s\<lparr>trace := trace s @ [Invoked r], world := w'\<rparr>"
  have inv: "invoke fn s = (r, s')"
    by (simp add: invoke_def logged_def fn s'_def)
  show ?case
  proof (cases r)
    case (Inr v)
    with 1(3,4) inv have "res = Inr v" "s1 = s'"
      by (simp_all add: withRetry_loop.simps [of E "invoke fn" retries b m attempt])
    then show ?thesis
      using 1(3) Inr by (intro exI [of _ "[Inr v]"]) (simp add: s'_def)
  next
    case (Inl e)
    show ?thesis
    proof (cases "attempt \<le> retries")
      case True
      show ?thesis
      proof (cases "message e")
        case None
        then have e: "e = Undefined"
          by (cases e) simp_all
        from 1(3,4) inv Inl True None have "res = Inl typeError" "s1 = s'"
          by (simp_all add: withRetry_loop.simps [of E "invoke fn" retries b m attempt] Let_def)
        then show ?thesis
          using Inl True e by (intro exI [of _ "[Inl e]"]) (simp add: s'_def)
      next
        case (Some msg)
        then have ne: "r \<noteq> Inl Undefined"
          using Inl by auto
        define s'' where "s'' = snd (sleep E (min (b * 2 ^ (attempt - 1)) m) s')"
        from 1(3,4) inv Inl True Some
        have run: "withRetry_loop E (invoke fn) retries b m (attempt + 1) e s'' = (res, s1)"
          by (simp add: withRetry_loop.simps [of E "invoke fn" retries b m attempt] s''_def
              Let_def)
        have le: "attempt + 1 \<le> retries + 1"
          using True by simp
        from 1(1) [OF 1(3) inv [symmetric] Inl True refl Some le run [unfolded s''_def]]
        obtain outs where o: "outs \<noteq> []"
          "trace s1 = trace s'' @ backoff_schedule b m (attempt + 1) outs"
          "attempt + 1 + length outs \<le> retries + 2"
          "\<forall>r \<in> set (butlast outs). isl r \<and> r \<noteq> Inl Undefined"
          "(case last outs of Inr v \<Rightarrow> res = Inr v
             | Inl e \<Rightarrow> if attempt + 1 + length outs = retries + 2 then res = Inl e
                        else e = Undefined \<and> res = Inl typeError)"
          by (auto simp: s''_def)
        from o(1) obtain r' rs where outs: "outs = r' # rs"
          by (cases outs) auto
        have tr: "trace s'' = trace s @ [Invoked r, Slept (min (b * 2 ^ (attempt - 1)) m)]"
          by (simp add: s''_def sleep_def s'_def)
        have sched: "trace s1 = trace s @ backoff_schedule b m attempt (r # outs)"
          using o(2) tr by (simp add: outs)
        have len: "attempt + length (r # outs) \<le> retries + 2"
          using o(3) by simp
        have fails: "\<forall>x \<in> set (butlast (r # outs)). isl x \<and> x \<noteq> Inl Undefined"
          using o(1,4) Inl ne by simp
        have fin: "(case last (r # outs) of Inr v \<Rightarrow> res = Inr v
             | Inl e \<Rightarrow> if attempt + length (r # outs) = retries + 2 then res = Inl e
                        else e = Undefined \<and> res = Inl typeError)"
          using o(1,5) by (simp split: sum.splits)
        from sched len fails fin show ?thesis
          by (intro exI [of _ "r # outs"]) simp
      qed
    next
      case False
      with 1(3) have att: "attempt = retries + 1"
        by simp
      from 1(3,4) inv Inl False
      have "withRetry_loop E (invoke fn) retries b m (attempt + 1) e s' = (res, s1)"
        by (simp add: withRetry_loop.simps [of E "invoke fn" retries b m attempt])
      moreover have "\<not> attempt + 1 \<le> retries + 1"
        using att by simp
      ultimately have "res = Inl e" "s1 = s'"
        by (simp_all add: withRetry_loop_done)
      then show ?thesis
        using Inl att by (intro exI [of _ "[Inl e]"]) (simp add: s'_def)
    qed
  qed
qed

section \<open>Facts about the action primitives\<close>

lemma tryFirst_cases:
  assumes "tryFirst E action sel s = (res, s')"
  shows "(\<exists>k. res = Inr None \<and> trace s' = trace s @ skip_events action sel k)
       \<or> (res = Inr (Some True) \<and> trace s' = trace s @ hit_events action sel)"
proof -
  obtain r1 w1 where a1: "act E (Locator sel) (world s) = (r1, w1)"
    by (cases "act E (Locator sel) (world s)")
  obtain r2 w2 where a2: "visible E sel w1 = (r2, w2)"
    by (cases "visible E sel w1")
  obtain r3 w3 where a3: "act E (action sel) w2 = (r3, w3)"
    by (cases "act E (action sel) w2")
  note defs = tryFirst_def perform_def isVisible_def logged_def bindE_def catchE_def returnE_def
  show ?thesis
  proof (cases r1)
    case (Inl e)
    with assms a1 have "res = Inr None"
      "trace s' = trace s @ skip_events action sel (LookupThrew e)"
      by (auto simp: defs)
    then show ?thesis by blast
  next
    case r1: (Inr u)
    show ?thesis
    proof (cases r2)
      case (Inl e)
      with assms a1 a2 r1 have "res = Inr None"
        "trace s' = trace s @ skip_events action sel (VisibilityThrew e)"
        by (auto simp: defs)
      then show ?thesis by blast
    next
      case r2: (Inr vis)
      show ?thesis
      proof (cases vis)
        case False
        with assms a1 a2 r1 r2 have "res = Inr None"
          "trace s' = trace s @ skip_events action sel NotVisible"
          by (auto simp: defs)
        then show ?thesis by blast
      next
        case True
        show ?thesis
        proof (cases r3)
          case (Inl e)
          with assms a1 a2 a3 r1 r2 True have "res = Inr None"
            "trace s' = trace s @ skip_events action sel (ActionThrew e)"
            by (auto simp: defs)
          then show ?thesis by blast
        next
          case (Inr u3)
          with assms a1 a2 a3 r1 r2 True have "res = Inr (Some True)"
            "trace s' = trace s @ hit_events action sel"
            by (auto simp: defs hit_events_def)
          then show ?thesis by blast
        qed
      qed
    qed
  qed
qed

lemma firstVisible_trace:
  assumes "firstVisible E action sels s = (res, s')"
  shows "(\<exists>skips. length skips = length sels \<and> res = Inr False
            \<and> trace s' = trace s @ concat (map2 (skip_events action) sels skips))
       \<or> (\<exists>pre sel post skips. sels = pre @ sel # post \<and> length skips = length pre
            \<and> res = Inr True
            \<and> trace s' = trace s @ concat (map2 (skip_events action) pre skips)
                 @ hit_events action sel)"
  using assms
proof (induction sels arbitrary: s)
  case Nil
  then show ?case by (simp add: returnE_def)
next
  case (Cons sel sels)
  obtain r1 s1 where t: "tryFirst E action sel s = (r1, s1)"
    by (cases "tryFirst E action sel s")
  from tryFirst_cases [OF t] show ?case
  proof
    assume "\<exists>k. r1 = Inr None \<and> trace s1 = trace s @ skip_events action sel k"
    then obtain k where k: "r1 = Inr None" "trace s1 = trace s @ skip_events action sel k"
      by blast
    with Cons.prems t have rest: "firstVisible E action sels s1 = (res, s')"
      by (simp add: bindE_def)
    from Cons.IH [OF rest] show ?thesis
    proof
      assume "\<exists>skips. length skips = length sels \<and> res = Inr False
            \<and> trace s' = trace s1 @ concat (map2 (skip_events action) sels skips)"
      then obtain skips where "length skips = length sels" "res = Inr False"
        "trace s' = trace s1 @ concat (map2 (skip_events action) sels skips)"
        by blast
      then have "length (k # skips) = length (sel # sels) \<and> res = Inr False
            \<and> trace s' = trace s @ concat (map2 (skip_events action) (sel # sels) (k # skips))"
        using k by simp
      then show ?thesis by blast
    next
      assume "\<exists>pre sel' post skips. sels = pre @ sel' # post \<and> length skips = length pre
            \<and> res = Inr True
            \<and> trace s' = trace s1 @ concat (map2 (skip_events action) pre skips)
                 @ hit_events action sel'"
      then obtain pre sel' post skips where "sels = pre @ sel' # post"
        "length skips = length pre" "res = Inr True"
        "trace s' = trace s1 @ concat (map2 (skip_events action) pre skips)
           @ hit_events action sel'"
        by blast
      then have "sel # sels = (sel # pre) @ sel' # post
            \<and> length (k # skips) = length (sel # pre) \<and> res = Inr True
            \<and> trace s' = trace s @ concat (map2 (skip_events action) (sel # pre) (k # skips))
                 @ hit_events action sel'"
        using k by simp
      then show ?thesis by blast
    qed
  next
    assume h: "r1 = Inr (Some True) \<and> trace s1 = trace s @ hit_events action sel"
    with Cons.prems t have "res = Inr True" "s' = s1"
      by (simp_all add: bindE_def returnE_def)
    with h have "sel # sels = [] @ sel # sels
        \<and> length ([] :: skip list) = length ([] :: string list) \<and> res = Inr True
        \<and> trace s' = trace s @ concat (map2 (skip_events action) [] []) @ hit_events action sel"
      by simp
    then show ?thesis by blast
  qed
qed

section \<open>Facts about the login verification\<close>

lemma indicator_probe:
  assumes "catchE (bindE (perform E (Locator ind)) (\<lambda>element. isVisible E ind))
             (\<lambda>e. returnE False) s = (res, s1)"
  shows "\<exists>new b. trace s1 = trace s @ new \<and> res = Inr b
           \<and> (b \<longleftrightarrow> IsVisible ind (Inr True) \<in> set new)
           \<and> (\<forall>sel r. IsVisible sel r \<in> set new \<longrightarrow> sel = ind)"
proof -
  obtain r1 w1 where a1: "act E (Locator ind) (world s) = (r1, w1)"
    by (cases "act E (Locator ind) (world s)")
  obtain r2 w2 where a2: "visible E ind w1 = (r2, w2)"
    by (cases "visible E ind w1")
  note defs = perform_def isVisible_def logged_def bindE_def catchE_def returnE_def
  show ?thesis
  proof (cases r1)
    case (Inl e)
    with assms a1 have "trace s1 = trace s @ [Did (Locator ind) (Inl e)]" "res = Inr False"
      by (auto simp: defs)
    then show ?thesis by auto
  next
    case r1: (Inr u)
    show ?thesis
    proof (cases r2)
      case (Inl e)
      with assms a1 a2 r1
      have "trace s1 = trace s @ [Did (Locator ind) (Inr ()), IsVisible ind (Inl e)]"
        "res = Inr False"
        by (auto simp: defs)
      then show ?thesis by auto
    next
      case (Inr b)
      with assms a1 a2 r1
      have "trace s1 = trace s @ [Did (Locator ind) (Inr ()), IsVisible ind (Inr b)]"
        "res = Inr b"
        by (auto simp: defs)
      then show ?thesis by auto
    qed
  qed
qed

lemma indicatorSignal_trace:
  assumes "indicatorSignal E inds s = (res, s')"
  shows "\<exists>new. trace s' = trace s @ new
           \<and> res = Inr (\<exists>ind \<in> set inds. IsVisible ind (Inr True) \<in> set new)
           \<and> (\<forall>sel r. IsVisible sel r \<in> set new \<longrightarrow> sel \<in> set inds)"
  using assms
proof (induction inds arbitrary: s)
  case Nil
  then show ?case by (simp add: returnE_def)
next
  case (Cons ind inds)
  obtain r1 s1 where p: "catchE (bindE (perform E (Locator ind)) (\<lambda>element. isVisible E ind))
             (\<lambda>e. returnE False) s = (r1, s1)"
    by (cases "catchE (bindE (perform E (Locator ind)) (\<lambda>element. isVisible E ind))
             (\<lambda>e. returnE False) s")
  from indicator_probe [OF p] obtain new1 b where n1: "trace s1 = trace s @ new1" "r1 = Inr b"
    "b \<longleftrightarrow> IsVisible ind (Inr True) \<in> set new1"
    "\<forall>sel r. IsVisible sel r \<in> set new1 \<longrightarrow> sel = ind"
    by blast
  show ?case
  proof (cases b)
    case True
    with Cons.prems p n1 have "res = Inr True" "s' = s1"
      by (simp_all add: bindE_def [of "catchE _ _"] returnE_def)
    with n1 True show ?thesis
      by (intro exI [of _ new1]) auto
  next
    case False
    with Cons.prems p n1 have rest: "indicatorSignal E inds s1 = (res, s')"
      by (simp add: bindE_def [of "catchE _ _"])
    from Cons.IH [OF rest] obtain new2 where n2: "trace s' = trace s1 @ new2"
      "res = Inr (\<exists>ind \<in> set inds. IsVisible ind (Inr True) \<in> set new2)"
      "\<forall>sel r. IsVisible sel r \<in> set new2 \<longrightarrow> sel \<in> set inds"
      by blast
    have "trace s' = trace s @ (new1 @ new2)"
      using n1(1) n2(1) by simp
    moreover have "res = Inr (\<exists>i \<in> set (ind # inds). IsVisible i (Inr True) \<in> set (new1 @ new2))"
      using n1(3,4) n2(2,3) False by auto
    moreover have "\<forall>sel r. IsVisible sel r \<in> set (new1 @ new2) \<longrightarrow> sel \<in> set (ind # inds)"
      using n1(4) n2(3) by auto
    ultimately show ?thesis
      by blast
  qed
qed


text \<open>The look at one indicator, by its events.\<close>

lemma indicator_probe_cases:
  assumes "catchE (bindE (perform E (Locator ind)) (\<lambda>element. isVisible E ind))
             (\<lambda>e. returnE False) s = (res, s1)"
  shows "(\<exists>k. res = Inr False \<and> trace s1 = trace s @ miss_events ind k)
       \<or> (res = Inr True \<and> trace s1 = trace s @ seen_events ind)"
proof -
  obtain r1 w1 where a1: "act E (Locator ind) (world s) = (r1, w1)"
    by (cases "act E (Locator ind) (world s)")
  obtain r2 w2 where a2: "visible E ind w1 = (r2, w2)"
    by (cases "visible E ind w1")
  note defs = perform_def isVisible_def logged_def bindE_def catchE_def returnE_def
  show ?thesis
  proof (cases r1)
    case (Inl e)
    with assms a1
    have "res = Inr False" "trace s1 = trace s @ miss_events ind (LookupFailed e)"
      by (auto simp: defs)
    then show ?thesis by blast
  next
    case r1: (Inr u)
    show ?thesis
    proof (cases r2)
      case (Inl e)
      with assms a1 a2 r1
      have "res = Inr False" "trace s1 = trace s @ miss_events ind (CheckFailed e)"
        by (auto simp: defs)
      then show ?thesis by blast
    next
      case (Inr b)
      show ?thesis
      proof (cases b)
        case True
        with assms a1 a2 r1 Inr
        have "res = Inr True" "trace s1 = trace s @ seen_events ind"
          by (auto simp: defs seen_events_def)
        then show ?thesis by blast
      next
        case False
        with assms a1 a2 r1 Inr
        have "res = Inr False" "trace s1 = trace s @ miss_events ind Hidden"
          by (auto simp: defs)
        then show ?thesis by blast
      qed
    qed
  qed
qed

text \<open>
  The loop over the indicators looks at them in their order, up to the first one seen;
  it answers true there, and false after it has missed them all.
\<close>

lemma indicatorSignal_shape:
  assumes "indicatorSignal E inds s = (res, s')"
  shows "\<exists>misses.
           (res = Inr True \<and> length misses < length inds
              \<and> trace s' = trace s @ concat (map2 miss_events inds misses)
                             @ seen_events (inds ! length misses))
         \<or> (res = Inr False \<and> length misses = length inds
              \<and> trace s' = trace s @ concat (map2 miss_events inds misses))"
  using assms
proof (induction inds arbitrary: s)
  case Nil
  then have "res = Inr False" "s' = s"
    by (simp_all add: returnE_def)
  then show ?case
    by (intro exI [of _ "[]"]) simp
next
  case (Cons ind inds)
  obtain r1 s1 where p: "catchE (bindE (perform E (Locator ind)) (\<lambda>element. isVisible E ind))
             (\<lambda>e. returnE False) s = (r1, s1)"
    by (cases "catchE (bindE (perform E (Locator ind)) (\<lambda>element. isVisible E ind))
             (\<lambda>e. returnE False) s")
  from indicator_probe_cases [OF p]
  show ?case
  proof
    assume "\<exists>k. r1 = Inr False \<and> trace s1 = trace s @ miss_events ind k"
    then obtain k where k: "r1 = Inr False" "trace s1 = trace s @ miss_events ind k"
      by blast
    with Cons.prems p have rest: "indicatorSignal E inds s1 = (res, s')"
      by (simp add: bindE_def [of "catchE _ _"])
    from Cons.IH [OF rest] obtain misses where
      m: "(res = Inr True \<and> length misses < length inds
              \<and> trace s' = trace s1 @ concat (map2 miss_events inds misses)
                             @ seen_events (inds ! length misses))
         \<or> (res = Inr False \<and> length misses = length inds
              \<and> trace s' = trace s1 @ concat (map2 miss_events inds misses))"
      by blast
    then show ?thesis
      using k(2) by (intro exI [of _ "k # misses"]) auto
  next
    assume seen: "r1 = Inr True \<and> trace s1 = trace s @ seen_events ind"
    with Cons.prems p have "res = Inr True" "s' = s1"
      by (simp_all add: bindE_def [of "catchE _ _"] returnE_def)
    with seen show ?thesis
      by (intro exI [of _ "[]"]) simp
  qed
qed
section \<open>Facts about traces\<close>

named_theorems emits_intros

lemma emitsD:
  assumes "emits P f" and "f s = (r, s')"
  shows "\<exists>new. trace s' = trace s @ new \<and> list_all P new"
  using assms by (auto simp: emits_def)

lemma emits_mono:
  assumes "emits P f" and "\<And>ev. P ev \<Longrightarrow> Q ev"
  shows "emits Q f"
  unfolding emits_def
proof (intro allI impI)
  fix s r s'
  assume "f s = (r, s')"
  from emitsD [OF assms(1) this] obtain new where "trace s' = trace s @ new" "list_all P new"
    by blast
  moreover from this(2) assms(2) have "list_all Q new"
    by (auto simp: list_all_iff)
  ultimately show "\<exists>new. trace s' = trace s @ new \<and> list_all Q new"
    by blast
qed

lemma emits_returnE [emits_intros]: "emits P (returnE x)"
  by (simp add: emits_def returnE_def)

lemma emits_throwE [emits_intros]: "emits P (throwE e)"
  by (simp add: emits_def throwE_def)

lemma emits_awaitE [emits_intros]: "emits P (awaitE r)"
  by (simp add: emits_def awaitE_def)

lemma emits_bindE [emits_intros]:
  assumes "emits P m" and "\<And>x. emits P (f x)"
  shows "emits P (bindE m f)"
  unfolding emits_def
proof (intro allI impI)
  fix s r s'
  assume run: "bindE m f s = (r, s')"
  obtain r1 s1 where m: "m s = (r1, s1)"
    by (cases "m s")
  from emitsD [OF assms(1) m] obtain new1 where n1: "trace s1 = trace s @ new1" "list_all P new1"
    by blast
  show "\<exists>new. trace s' = trace s @ new \<and> list_all P new"
  proof (cases r1)
    case (Inl e)
    with run m have "s' = s1"
      by (simp add: bindE_def)
    with n1 show ?thesis by blast
  next
    case (Inr x)
    with run m have "f x s1 = (r, s')"
      by (simp add: bindE_def)
    from emitsD [OF assms(2) this] obtain new2 where "trace s' = trace s1 @ new2"
      "list_all P new2"
      by blast
    with n1 have "trace s' = trace s @ (new1 @ new2)" "list_all P (new1 @ new2)"
      by simp_all
    then show ?thesis by blast
  qed
qed

lemma emits_catchE [emits_intros]:
  assumes "emits P m" and "\<And>e. emits P (h e)"
  shows "emits P (catchE m h)"
  unfolding emits_def
proof (intro allI impI)
  fix s r s'
  assume run: "catchE m h s = (r, s')"
  obtain r1 s1 where m: "m s = (r1, s1)"
    by (cases "m s")
  from emitsD [OF assms(1) m] obtain new1 where n1: "trace s1 = trace s @ new1" "list_all P new1"
    by blast
  show "\<exists>new. trace s' = trace s @ new \<and> list_all P new"
  proof (cases r1)
    case (Inr x)
    with run m have "s' = s1"
      by (simp add: catchE_def)
    with n1 show ?thesis by blast
  next
    case (Inl e)
    with run m have "h e s1 = (r, s')"
      by (simp add: catchE_def)
    from emitsD [OF assms(2) this] obtain new2 where "trace s' = trace s1 @ new2"
      "list_all P new2"
      by blast
    with n1 have "trace s' = trace s @ (new1 @ new2)" "list_all P (new1 @ new2)"
      by simp_all
    then show ?thesis by blast
  qed
qed

lemma emits_logged:
  assumes "\<And>r. P (ev r)"
  shows "emits P (logged ev call)"
  unfolding emits_def
proof (intro allI impI)
  fix s r s'
  assume "logged ev call s = (r, s')"
  then have "trace s' = trace s @ [ev r]"
    by (auto simp: logged_def split: prod.splits)
  with assms show "\<exists>new. trace s' = trace s @ new \<and> list_all P new"
    by auto
qed

lemma emits_perform:
  assumes "\<And>r. P (Did a r)"
  shows "emits P (perform E a)"
  unfolding perform_def using assms by (rule emits_logged)

lemma emits_isVisible:
  assumes "\<And>r. P (IsVisible sel r)"
  shows "emits P (isVisible E sel)"
  unfolding isVisible_def using assms by (rule emits_logged)

lemma emits_get:
  assumes "\<And>r. P (Requested u r)"
  shows "emits P (get E u)"
  unfolding get_def using assms by (rule emits_logged)

lemma emits_sleep:
  assumes "P (Slept ms)"
  shows "emits P (sleep E ms)"
  using assms by (simp add: emits_def sleep_def)

lemma emits_if [emits_intros]:
  assumes "c \<Longrightarrow> emits P a" and "\<not> c \<Longrightarrow> emits P b"
  shows "emits P (if c then a else b)"
  using assms by simp

lemma withRetry_loop_emits:
  assumes "withRetry_loop E fn retries b m attempt lastError s = (r, s')"
    and "emits P fn" and "\<forall>ms. P (Slept ms)"
  shows "\<exists>new. trace s' = trace s @ new \<and> list_all P new"
  using assms
proof (induction E fn retries b m attempt lastError s rule: withRetry_loop.induct)
  case (1 E fn retries b m attempt lastError s)
  note run = "1.prems"(1) and fn = "1.prems"(2) and sl = "1.prems"(3)
  show ?case
  proof (cases "attempt \<le> retries + 1")
    case False
    with run show ?thesis
      by (simp add: withRetry_loop_done)
  next
    case True
    obtain r1 s1 where f: "fn s = (r1, s1)"
      by (cases "fn s")
    from emitsD [OF fn f] obtain new1 where n1: "trace s1 = trace s @ new1"
      "list_all P new1"
      by blast
    show ?thesis
    proof (cases r1)
      case (Inr v)
      with run True f have "s' = s1"
        by (simp add: withRetry_loop.simps [of E fn retries b m attempt])
      with n1 show ?thesis by blast
    next
      case (Inl e)
      show ?thesis
      proof (cases "attempt \<le> retries")
        case le: True
        show ?thesis
        proof (cases "message e")
          case None
          with run True f Inl le have "s' = s1"
            by (simp add: withRetry_loop.simps [of E fn retries b m attempt] Let_def)
          with n1 show ?thesis by blast
        next
          case (Some msg)
          define s2 where "s2 = snd (sleep E (min (b * 2 ^ (attempt - 1)) m) s1)"
          from run True f Inl le Some
          have run': "withRetry_loop E fn retries b m (attempt + 1) e s2 = (r, s')"
            by (simp add: withRetry_loop.simps [of E fn retries b m attempt] s2_def Let_def)
          from "1.IH"(1) [OF True f [symmetric] Inl le refl Some run' [unfolded s2_def] fn sl]
          obtain new2 where n2: "trace s' = trace s2 @ new2" "list_all P new2"
            by (auto simp: s2_def)
          have "trace s2 = trace s1 @ [Slept (min (b * 2 ^ (attempt - 1)) m)]"
            by (simp add: s2_def sleep_def)
          with n1 n2 sl
          have "trace s' = trace s @ (new1 @ Slept (min (b * 2 ^ (attempt - 1)) m) # new2)"
            "list_all P (new1 @ Slept (min (b * 2 ^ (attempt - 1)) m) # new2)"
            by simp_all
          then show ?thesis by blast
        qed
      next
        case nle: False
        from run True f Inl nle
        have run': "withRetry_loop E fn retries b m (attempt + 1) e s1 = (r, s')"
          by (simp add: withRetry_loop.simps [of E fn retries b m attempt])
        from "1.IH"(2) [OF True f [symmetric] Inl nle run' fn sl]
        obtain new2 where "trace s' = trace s1 @ new2" "list_all P new2"
          by auto
        with n1 have "trace s' = trace s @ (new1 @ new2)" "list_all P (new1 @ new2)"
          by simp_all
        then show ?thesis by blast
      qed
    qed
  qed
qed

lemma emits_withRetry_loop:
  assumes "emits P fn" and "\<And>ms. P (Slept ms)"
  shows "emits P (withRetry_loop E fn retries b m attempt lastError)"
  unfolding emits_def using withRetry_loop_emits [of E fn retries b m attempt lastError] assms
  by blast

lemma emits_withRetry:
  assumes "emits P fn" and "\<And>ms. P (Slept ms)"
  shows "emits P (withRetry E fn options)"
  unfolding withRetry_def Let_def using assms by (rule emits_withRetry_loop)

text \<open>When \<open>withRetry\<close> returns a value, it is the value the operation has just returned.\<close>

lemma withRetry_loop_returns:
  assumes "withRetry_loop E fn retries b m attempt lastError s = (Inr v, s')"
  shows "\<exists>s0. fn s0 = (Inr v, s')"
  using assms
proof (induction E fn retries b m attempt lastError s rule: withRetry_loop.induct)
  case (1 E fn retries b m attempt lastError s)
  show ?case
  proof (cases "attempt \<le> retries + 1")
    case False
    with "1.prems" show ?thesis
      by (simp add: withRetry_loop_done)
  next
    case True
    obtain r1 s1 where f: "fn s = (r1, s1)"
      by (cases "fn s")
    show ?thesis
    proof (cases r1)
      case (Inr v')
      with "1.prems" True f have "v' = v" "s' = s1"
        by (simp_all add: withRetry_loop.simps [of E fn retries b m attempt])
      with f Inr show ?thesis by blast
    next
      case (Inl e)
      show ?thesis
      proof (cases "attempt \<le> retries")
        case le: True
        show ?thesis
        proof (cases "message e")
          case None
          with "1.prems" True f Inl le show ?thesis
            by (simp add: withRetry_loop.simps [of E fn retries b m attempt] Let_def)
        next
          case (Some msg)
          with "1.prems" True f Inl le
          have "withRetry_loop E fn retries b m (attempt + 1) e
                  (snd (sleep E (min (b * 2 ^ (attempt - 1)) m) s1)) = (Inr v, s')"
            by (simp add: withRetry_loop.simps [of E fn retries b m attempt] Let_def)
          from "1.IH"(1) [OF True f [symmetric] Inl le refl Some this] show ?thesis .
        qed
      next
        case nle: False
        from "1.prems" True f Inl nle
        have "withRetry_loop E fn retries b m (attempt + 1) e s1 = (Inr v, s')"
          by (simp add: withRetry_loop.simps [of E fn retries b m attempt])
        from "1.IH"(2) [OF True f [symmetric] Inl nle this] show ?thesis .
      qed
    qed
  qed
qed

lemma withRetry_returns:
  assumes "withRetry E fn options s = (Inr v, s')"
  shows "\<exists>s0. fn s0 = (Inr v, s')"
  using assms unfolding withRetry_def Let_def by (rule withRetry_loop_returns)

section \<open>Facts about the login and download flows\<close>

lemma emits_firstVisible:
  assumes "\<And>sel r. P (Did (Locator sel) r)" and "\<And>sel r. P (IsVisible sel r)"
    and "\<And>sel r. P (Did (action sel) r)"
  shows "emits P (firstVisible E action sels)"
proof (induction sels)
  case Nil
  show ?case by (simp add: emits_returnE)
next
  case (Cons sel sels)
  have "emits P (tryFirst E action sel)"
    unfolding tryFirst_def
    by (intro emits_intros emits_perform emits_isVisible assms)
  then show ?case
    using Cons by (auto intro!: emits_intros split: option.splits)
qed

lemma emits_clickFirst: "emits formEvent (clickFirst E sels)"
  unfolding clickFirst_def by (rule emits_firstVisible) simp_all

lemma emits_fillFirst: "emits formEvent (fillFirst E sels v)"
  unfolding fillFirst_def by (rule emits_firstVisible) simp_all

lemma emits_indicatorSignal: "emits formEvent (indicatorSignal E inds)"
proof (induction inds)
  case Nil
  show ?case by (simp add: emits_returnE)
next
  case (Cons ind inds)
  then show ?case
    by (auto intro!: emits_intros emits_perform emits_isVisible)
qed

lemma emits_verifyLogin: "emits formEvent (verifyLogin E cfg sels)"
proof -
  have "emits formEvent
     (bindE (if urlSignal cfg u then returnE True
             else indicatorSignal E (sel_accountIndicators sels))
        (\<lambda>isLoggedIn.
           if \<not> isLoggedIn
           then throwE (Error
             ''Login verification failed - still on login page or no account indicators found'')
           else returnE True))" for u
    by (intro emits_intros emits_indicatorSignal)
  note h = this
  show ?thesis
    unfolding emits_def
  proof (intro allI impI)
    fix s r s'
    assume "verifyLogin E cfg sels s = (r, s')"
    then have "bindE (if urlSignal cfg (url E (world s)) then returnE True
             else indicatorSignal E (sel_accountIndicators sels))
        (\<lambda>isLoggedIn.
           if \<not> isLoggedIn
           then throwE (Error
             ''Login verification failed - still on login page or no account indicators found'')
           else returnE True) s = (r, s')"
      by (simp add: verifyLogin_def Let_def)
    from emitsD [OF h this] show "\<exists>new. trace s' = trace s @ new \<and> list_all formEvent new" .
  qed
qed

lemma emits_captureScreenshot: "emits formEvent (captureScreenshot E cfg name)"
  unfolding captureScreenshot_def by (intro emits_intros emits_perform) simp_all

lemma catchE_bindE_bindE:
  "catchE (bindE (bindE m f) g) h s =
     (case m s of (Inl e, s1) \<Rightarrow> h e s1 | (Inr x, s1) \<Rightarrow> catchE (bindE (f x) g) h s1)"
  by (simp add: catchE_def bindE_def split: prod.splits sum.splits)

text \<open>A run of \<open>login\<close>: one navigation to the login page, then events of the form.\<close>

lemma login_trace:
  fixes s :: "('r, 'w) state"
  assumes "login E cfg sels s = (r, s')"
  shows "\<exists>g new. trace s' = trace s @ Did (Goto (loginUrl cfg)) g # new \<and> list_all formEvent new"
proof -
  define f :: "unit \<Rightarrow> (('r, 'w) state, unit) io" where "f =
       (\<lambda>_. bindE (clickFirst E (sel_cookieAccept sels)) (\<lambda>cookieAccepted.
        bindE (if cookieAccepted then sleep E 1000 else returnE ()) (\<lambda>_.
        bindE (fillFirst E (sel_email sels) (username cfg)) (\<lambda>emailFilled.
        if \<not> emailFilled then throwE (Error ''Could not find email input field'') else
        bindE (fillFirst E (sel_password sels) (password cfg)) (\<lambda>passwordFilled.
        if \<not> passwordFilled then throwE (Error ''Could not find password input field'') else
        bindE (clickFirst E (sel_submit sels)) (\<lambda>submitClicked.
        bindE (if \<not> submitClicked then perform E (Press ''Enter'') else returnE ()) (\<lambda>_.
        perform E WaitForLoadState)))))))"
  define g :: "unit \<Rightarrow> (('r, 'w) state, bool) io" where "g = (\<lambda>_. verifyLogin E cfg sels)"
  define h :: "error \<Rightarrow> (('r, 'w) state, bool) io" where
    "h = (\<lambda>error. bindE (captureScreenshot E cfg ''login-error'') (\<lambda>_. throwE error))"
  have l: "login E cfg sels = catchE (bindE (bindE (perform E (Goto (loginUrl cfg))) f) g) h"
    unfolding login_def submitLogin_def f_def g_def h_def by (rule refl)
  have sl: "emits formEvent (sleep E 1000 :: (('r, 'w) state, unit) io)"
    by (rule emits_sleep) simp
  have pr: "emits formEvent (perform E (Press ''Enter'') :: (('r, 'w) state, unit) io)"
    by (rule emits_perform) simp
  have wt: "emits formEvent (perform E WaitForLoadState :: (('r, 'w) state, unit) io)"
    by (rule emits_perform) simp
  have f: "emits formEvent (f x)" for x
    unfolding f_def by (intro emits_intros emits_clickFirst emits_fillFirst sl pr wt)
  have g: "emits formEvent (g x)" for x
    unfolding g_def by (rule emits_verifyLogin)
  have h: "emits formEvent (h e)" for e
    unfolding h_def by (intro emits_intros emits_captureScreenshot)
  obtain o1 s1 where p: "perform E (Goto (loginUrl cfg)) s = (o1, s1)"
    by (cases "perform E (Goto (loginUrl cfg)) s")
  then have t1: "trace s1 = trace s @ [Did (Goto (loginUrl cfg)) o1]"
    by (auto simp: perform_def logged_def split: prod.splits)
  have "\<exists>new. trace s' = trace s1 @ new \<and> list_all formEvent new"
  proof (cases o1)
    case (Inl e)
    with assms p have "h e s1 = (r, s')"
      by (simp add: l catchE_bindE_bindE)
    from emitsD [OF h this] show ?thesis .
  next
    case (Inr u)
    with assms p have run: "catchE (bindE (f u) g) h s1 = (r, s')"
      by (simp add: l catchE_bindE_bindE)
    have "emits formEvent (catchE (bindE (f u) g) h)"
      by (intro emits_intros f g h)
    from emitsD [OF this run] show ?thesis .
  qed
  with t1 show ?thesis
    by auto
qed

lemma downloadCsv_unfold:
  "downloadCsv E cfg s =
     (case get E (exportUrl cfg) s of
        (fetched, s1) \<Rightarrow>
          (case checkResponse fetched of
             Inr v \<Rightarrow> (Inr v, s1)
           | Inl e \<Rightarrow> bindE (captureScreenshot E cfg ''download-error'') (\<lambda>_. throwE e) s1))"
  by (simp add: downloadCsv_def checkResponse_def contentTypeOf_def catchE_def bindE_def
      awaitE_def throwE_def returnE_def Let_def split: prod.splits sum.splits)

lemma get_trace:
  assumes "get E u s = (fetched, s1)"
  shows "\<exists>w1. request E u (world s) = (fetched, w1)
           \<and> s1 = s\<lparr>trace := trace s @ [Requested u fetched], world := w1\<rparr>"
  using assms by (auto simp: get_def logged_def split: prod.splits)

text \<open>A run of \<open>downloadCsv\<close>: one fetch, then at most the events of the screenshot.\<close>

lemma downloadCsv_trace:
  assumes "downloadCsv E cfg s = (r, s')"
  shows "\<exists>fetched w1 new. request E (exportUrl cfg) (world s) = (fetched, w1)
           \<and> trace s' = trace s @ Requested (exportUrl cfg) fetched # new
           \<and> list_all formEvent new
           \<and> (\<forall>v. r = Inr v \<longrightarrow> checkResponse fetched = Inr v \<and> new = [])"
proof -
  obtain fetched s1 where g: "get E (exportUrl cfg) s = (fetched, s1)"
    by (cases "get E (exportUrl cfg) s")
  from get_trace [OF g] obtain w1 where w: "request E (exportUrl cfg) (world s) = (fetched, w1)"
    "trace s1 = trace s @ [Requested (exportUrl cfg) fetched]"
    by auto
  show ?thesis
  proof (cases "checkResponse fetched")
    case (Inr v)
    with assms g have "r = Inr v" "s' = s1"
      by (simp_all add: downloadCsv_unfold)
    with w Inr show ?thesis
      by auto
  next
    case (Inl e)
    let ?h = "bindE (captureScreenshot E cfg ''download-error'') (\<lambda>_. throwE e)"
    from Inl assms g have run: "?h s1 = (r, s')"
      by (simp add: downloadCsv_unfold)
    have "emits formEvent ?h"
      by (intro emits_intros emits_captureScreenshot)
    from emitsD [OF this run] obtain new where n: "trace s' = trace s1 @ new"
      "list_all formEvent new"
      by blast
    from run have "isl r"
      by (auto simp: bindE_def throwE_def split: prod.splits sum.splits)
    with w n show ?thesis
      by auto
  qed
qed

lemma checkResponse_accepts:
  assumes "checkResponse fetched = Inr (buffer, contentType, bytes)"
  shows "\<exists>response. fetched = Inr response \<and> resp_status response = 200
           \<and> resp_body response = Inr buffer \<and> contentType = contentTypeOf response
           \<and> ensureCsv buffer contentType \<and> bytes = length buffer"
  using assms by (auto simp: checkResponse_def split: sum.splits if_splits)






section \<open>Facts about the storage module\<close>

lemma destinations_append [simp]: "destinations (xs @ ys) = destinations xs @ destinations ys"
  by (induction xs rule: destinations.induct) simp_all

lemma removals_append [simp]: "removals (xs @ ys) = removals xs @ removals ys"
  by (induction xs rule: removals.induct) simp_all

lemma uploadToWordPress_trace:
  assumes "uploadToWordPress E env buffer filename s = (r, s')"
  shows "\<exists>new. trace s' = trace s @ new \<and> writesTo filename new r"
proof (cases "WP_BASE_URL env = [] \<or> WP_USER env = [] \<or> WP_APP_PASS env = []")
  case True
  with assms have "trace s' = trace s @ []" "isl r"
    by (auto simp: uploadToWordPress_def throwE_def)
  then show ?thesis
    unfolding writesTo_def by (intro exI [of _ "[]"]) simp
next
  case False
  obtain p w1 where p: "post E filename buffer (world s) = (p, w1)"
    by (cases "post E filename buffer (world s)")
  with False assms have "trace s' = trace s @ [Posted filename buffer p]"
    by (auto simp: uploadToWordPress_def catchE_def bindE_def logged_def throwE_def returnE_def
        split: sum.splits wp_reply.splits if_splits)
  then show ?thesis
    unfolding writesTo_def by (intro exI [of _ "[Posted filename buffer p]"]) simp
qed

lemma uploadToS3_trace:
  assumes "uploadToS3 E env buffer filename isHistory s = (r, s')"
  shows "\<exists>new. trace s' = trace s @ new
           \<and> writesTo (if isHistory
                then orDefault (S3_KEY_PREFIX_HISTORY env) ''ingrosmart/history/'' @ filename
                else orDefault (S3_KEY_PREFIX env) ''ingrosmart/ingrosmart_catalog.csv'') new r"
proof (cases "S3_ENDPOINT env = [] \<or> S3_BUCKET env = [] \<or> S3_ACCESS_KEY env = []
         \<or> S3_SECRET_KEY env = []")
  case True
  with assms have "trace s' = trace s @ []" "isl r"
    by (auto simp: uploadToS3_def throwE_def)
  then show ?thesis
    unfolding writesTo_def by (intro exI [of _ "[]"]) simp
next
  case False
  let ?key = "if isHistory
                then orDefault (S3_KEY_PREFIX_HISTORY env) ''ingrosmart/history/'' @ filename
                else orDefault (S3_KEY_PREFIX env) ''ingrosmart/ingrosmart_catalog.csv''"
  obtain p w1 where p: "act E (PutObject ?key buffer) (world s) = (p, w1)"
    by (cases "act E (PutObject ?key buffer) (world s)")
  with False assms have "trace s' = trace s @ [Did (PutObject ?key buffer) p]"
    by (auto simp: uploadToS3_def Let_def catchE_def perform_def logged_def throwE_def
        split: sum.splits option.splits if_splits)
  then show ?thesis
    unfolding writesTo_def by (intro exI [of _ "[Did (PutObject ?key buffer) p]"]) simp
qed

lemma saveToFileSystem_trace:
  assumes "saveToFileSystem E env buffer filename isHistory s = (r, s')"
  shows "\<exists>new. trace s' = trace s @ new
           \<and> writesTo
                (if isHistory
                 then path_join [path_join [path_join [dirname env, ''..'', ''output''], ''history''],
                                 filename]
                 else path_join [path_join [dirname env, ''..'', ''output''],
                                 ''ingrosmart_catalog.csv'']) new r"
proof -
  let ?dir = "path_join [path_join [dirname env, ''..'', ''output''], ''history'']"
  let ?path = "if isHistory then path_join [?dir, filename]
               else path_join [path_join [dirname env, ''..'', ''output''],
                               ''ingrosmart_catalog.csv'']"
  obtain m w1 where m: "act E (Mkdir ?dir) (world s) = (m, w1)"
    by (cases "act E (Mkdir ?dir) (world s)")
  show ?thesis
  proof (cases m)
    case (Inl e)
    with assms m have "trace s' = trace s @ [Did (Mkdir ?dir) m]" "isl r"
      by (auto simp: saveToFileSystem_def Let_def bindE_def perform_def logged_def)
    then show ?thesis
      unfolding writesTo_def by (intro exI [of _ "[Did (Mkdir ?dir) m]"]) simp
  next
    case (Inr u)
    obtain p w2 where p: "act E (WriteFile ?path buffer) w1 = (p, w2)"
      by (cases "act E (WriteFile ?path buffer) w1")
    with Inr assms m
    have "trace s' = trace s @ [Did (Mkdir ?dir) m, Did (WriteFile ?path buffer) p]"
      by (auto simp: saveToFileSystem_def Let_def bindE_def perform_def logged_def returnE_def
          split: sum.splits if_splits)
    then show ?thesis
      unfolding writesTo_def
      by (intro exI [of _ "[Did (Mkdir ?dir) m, Did (WriteFile ?path buffer) p]"]) simp
  qed
qed

text \<open>Two writes in a row: the places written are a prefix of the two, both on success.\<close>

lemma two_writes:
  assumes "bindE m1 (\<lambda>_. m2) s = (r, s')"
    and "\<And>r1 s1. m1 s = (r1, s1) \<Longrightarrow> \<exists>new. trace s1 = trace s @ new \<and> writesTo d1 new r1"
    and "\<And>s1 r2 s2. m2 s1 = (r2, s2) \<Longrightarrow> \<exists>new. trace s2 = trace s1 @ new \<and> writesTo d2 new r2"
  shows "\<exists>new. trace s' = trace s @ new \<and> removals new = []
           \<and> prefix (destinations new) [d1, d2]
           \<and> (\<not> isl r \<longrightarrow> destinations new = [d1, d2])"
proof -
  obtain r1 s1 where m1: "m1 s = (r1, s1)"
    by (cases "m1 s")
  from assms(2) [OF m1] obtain new1 where n1: "trace s1 = trace s @ new1" "writesTo d1 new1 r1"
    by blast
  show ?thesis
  proof (cases r1)
    case (Inl e)
    with assms(1) m1 have "s' = s1" "isl r"
      by (auto simp: bindE_def)
    with n1 show ?thesis
      unfolding writesTo_def by (intro exI [of _ new1]) auto
  next
    case (Inr u)
    with assms(1) m1 have m2: "m2 s1 = (r, s')"
      by (simp add: bindE_def)
    from assms(3) [OF m2] obtain new2 where n2: "trace s' = trace s1 @ new2" "writesTo d2 new2 r"
      by blast
    from n1 Inr have d1: "destinations new1 = [d1]" "removals new1 = []"
      by (auto simp: writesTo_def)
    from n1 n2 d1 show ?thesis
      unfolding writesTo_def by (intro exI [of _ "new1 @ new2"]) auto
  qed
qed

lemma deliverTo_trace:
  fixes s :: "('a, 'b) state"
  assumes "deliverTo E env (orDefault (TARGET env) ''fs'') buffer
             (orDefault (WP_DEST_FILE env) ''ingrosmart_catalog.csv'') historyFilename s = (r, s')"
  shows "\<exists>new. trace s' = trace s @ new \<and> removals new = []
           \<and> prefix (destinations new) [catalogDestination env, historyDestination env historyFilename]
           \<and> (\<not> isl r \<longrightarrow> destinations new
                 = [catalogDestination env, historyDestination env historyFilename])"
proof -
  let ?tgt = "orDefault (TARGET env) ''fs''"
  let ?cat = "orDefault (WP_DEST_FILE env) ''ingrosmart_catalog.csv''"
  consider (wp) "?tgt = ''wp''" | (s3) "?tgt \<noteq> ''wp''" "?tgt = ''s3''"
    | (fs) "?tgt \<noteq> ''wp''" "?tgt \<noteq> ''s3''"
    by blast
  then show ?thesis
  proof cases
    case wp
    with assms have run: "bindE (uploadToWordPress E env buffer ?cat)
        (\<lambda>_. uploadToWordPress E env buffer historyFilename) s = (r, s')"
      by (simp add: deliverTo_def)
    have f1: "\<exists>new. trace s1 = trace s @ new \<and> writesTo ?cat new r1"
      if "uploadToWordPress E env buffer ?cat s = (r1, s1)" for r1 s1
      using that by (rule uploadToWordPress_trace)
    have f2: "\<exists>new. trace s2 = trace s1 @ new \<and> writesTo historyFilename new r2"
      if "uploadToWordPress E env buffer historyFilename s1 = (r2, s2)"
      for s1 s2 :: "('a, 'b) state" and r2
      using that by (rule uploadToWordPress_trace)
    from two_writes [OF run f1 f2] wp
    show ?thesis
      by (simp add: catalogDestination_def historyDestination_def)
  next
    case s3
    with assms have run: "bindE (uploadToS3 E env buffer ?cat False)
        (\<lambda>_. uploadToS3 E env buffer historyFilename True) s = (r, s')"
      by (simp add: deliverTo_def)
    have f1: "\<exists>new. trace s1 = trace s @ new
        \<and> writesTo (orDefault (S3_KEY_PREFIX env) ''ingrosmart/ingrosmart_catalog.csv'') new r1"
      if "uploadToS3 E env buffer ?cat False s = (r1, s1)" for r1 s1
      using uploadToS3_trace [OF that] by simp
    have f2: "\<exists>new. trace s2 = trace s1 @ new
        \<and> writesTo (orDefault (S3_KEY_PREFIX_HISTORY env) ''ingrosmart/history/''
                      @ historyFilename) new r2"
      if "uploadToS3 E env buffer historyFilename True s1 = (r2, s2)"
      for s1 s2 :: "('a, 'b) state" and r2
      using uploadToS3_trace [OF that] by simp
    from two_writes [OF run f1 f2] s3
    show ?thesis
      by (simp add: catalogDestination_def historyDestination_def)
  next
    case fs
    with assms have run: "bindE (saveToFileSystem E env buffer ?cat False)
        (\<lambda>_. bindE (saveToFileSystem E env buffer historyFilename True) (\<lambda>_. returnE ())) s
        = (r, s')"
      by (simp add: deliverTo_def)
    have second: "\<exists>new. trace s2 = trace s1 @ new
           \<and> writesTo (path_join [path_join [path_join [dirname env, ''..'', ''output''], ''history''],
                                historyFilename]) new r2"
      if "bindE (saveToFileSystem E env buffer historyFilename True) (\<lambda>_. returnE ()) s1
            = (r2, s2)" for s1 s2 :: "('a, 'b) state" and r2
    proof -
      obtain r3 s3 where sv: "saveToFileSystem E env buffer historyFilename True s1 = (r3, s3)"
        by (cases "saveToFileSystem E env buffer historyFilename True s1")
      from saveToFileSystem_trace [OF sv] obtain new
        where n: "trace s3 = trace s1 @ new"
          "writesTo (path_join [path_join [path_join [dirname env, ''..'', ''output''], ''history''],
                                historyFilename]) new r3"
        by auto
      from that sv have "s2 = s3" "isl r2 = isl r3"
        by (auto simp: bindE_def returnE_def split: sum.splits)
      with n show ?thesis
        by (auto simp: writesTo_def)
    qed
    have first: "\<exists>new. trace s1 = trace s @ new
           \<and> writesTo (path_join [path_join [dirname env, ''..'', ''output''],
                                ''ingrosmart_catalog.csv'']) new r1"
      if "saveToFileSystem E env buffer ?cat False s = (r1, s1)" for r1 s1
      using saveToFileSystem_trace [OF that] by simp
    from two_writes [OF run first second] fs
    show ?thesis
      by (simp add: catalogDestination_def historyDestination_def)
  qed
qed

text \<open>The loops of the older revision that delete: each file in turn, up to the first failure.\<close>

lemma unlinkAll_trace:
  assumes "unlinkAll E dir files s = (r, s')"
  shows "\<exists>new. trace s' = trace s @ new
           \<and> followsPlan Unlink (map (\<lambda>file. path_join [dir, file]) files) new"
  using assms
proof (induction files arbitrary: s)
  case Nil
  then show ?case by (simp add: returnE_def)
next
  case (Cons name files)
  obtain u w1 where u: "act E (Unlink (path_join [dir, name])) (world s) = (u, w1)"
    by (cases "act E (Unlink (path_join [dir, name])) (world s)")
  define s1
    where "s1 = s\<lparr>trace := trace s @ [Did (Unlink (path_join [dir, name])) u], world := w1\<rparr>"
  have p: "perform E (Unlink (path_join [dir, name])) s = (u, s1)"
    using u by (simp add: perform_def logged_def s1_def)
  show ?case
  proof (cases u)
    case (Inl e)
    with Cons.prems p have "s' = s1"
      by (simp add: bindE_def)
    then show ?thesis
      using Inl
      by (intro exI [of _ "[Did (Unlink (path_join [dir, name])) u]"]) (simp add: s1_def)
  next
    case (Inr v)
    with Cons.prems p have "unlinkAll E dir files s1 = (r, s')"
      by (simp add: bindE_def)
    from Cons.IH [OF this] obtain new where n: "trace s' = trace s1 @ new"
      "followsPlan Unlink (map (\<lambda>file. path_join [dir, file]) files) new"
      by blast
    then show ?thesis
      using Inr
      by (intro exI [of _ "Did (Unlink (path_join [dir, name])) u # new"]) (simp add: s1_def)
  qed
qed

lemma deleteAll_trace:
  assumes "deleteAll E objects s = (r, s')"
  shows "\<exists>new. trace s' = trace s @ new \<and> followsPlan DeleteObject (map Key objects) new"
  using assms
proof (induction objects arbitrary: s)
  case Nil
  then show ?case by (simp add: returnE_def)
next
  case (Cons obj objects)
  obtain u w1 where u: "act E (DeleteObject (Key obj)) (world s) = (u, w1)"
    by (cases "act E (DeleteObject (Key obj)) (world s)")
  define s1 where "s1 = s\<lparr>trace := trace s @ [Did (DeleteObject (Key obj)) u], world := w1\<rparr>"
  have p: "perform E (DeleteObject (Key obj)) s = (u, s1)"
    by (simp add: perform_def logged_def u s1_def)
  show ?case
  proof (cases u)
    case (Inl e)
    with Cons.prems p have "s' = s1"
      by (simp add: bindE_def)
    then show ?thesis
      using Inl by (intro exI [of _ "[Did (DeleteObject (Key obj)) u]"]) (simp add: s1_def)
  next
    case (Inr v)
    with Cons.prems p have "deleteAll E objects s1 = (r, s')"
      by (simp add: bindE_def)
    from Cons.IH [OF this] obtain new where n: "trace s' = trace s1 @ new"
      "followsPlan DeleteObject (map Key objects) new"
      by blast
    then show ?thesis
      using Inr by (intro exI [of _ "Did (DeleteObject (Key obj)) u # new"]) (simp add: s1_def)
  qed
qed
section \<open>Facts about the pruning of the older revision\<close>

lemma csvFilesOf_set:
  "set (csvFilesOf files) = {f \<in> set files. prefix ''ingrosmart-'' f \<and> suffix ''.csv'' f}"
  by (auto simp: csvFilesOf_def)

lemma newest_first_split:
  assumes "sorted (rev (map key xs))"
  shows "\<forall>k \<in> set (take n xs). \<forall>d \<in> set (drop n xs). key d \<le> key k"
proof -
  have "rev (map key xs) = rev (map key (drop n xs)) @ rev (map key (take n xs))"
    by (metis append_take_drop_id map_append rev_append)
  with assms have "sorted (rev (map key (drop n xs)) @ rev (map key (take n xs)))"
    by simp
  then show ?thesis
    by (auto simp: sorted_append)
qed

lemma csvFilesOf_newest_first:
  "\<forall>k \<in> set (take n (csvFilesOf files)). \<forall>d \<in> set (drop n (csvFilesOf files)). d \<le> k"
proof -
  have "sorted (rev (map (\<lambda>f. f) (csvFilesOf files)))"
    by (simp add: csvFilesOf_def)
  from newest_first_split [OF this] show ?thesis .
qed

lemma sortedObjectsOf_newest_first:
  "\<forall>k \<in> set (take n (sortedObjectsOf objects)). \<forall>d \<in> set (drop n (sortedObjectsOf objects)).
     LastModified d \<le> LastModified k"
proof -
  have "sorted (map (\<lambda>obj. - LastModified obj) (sortedObjectsOf objects))"
    by (simp add: sortedObjectsOf_def)
  then have "\<forall>d \<in> set (drop n (sortedObjectsOf objects)).
      \<forall>k \<in> set (take n (sortedObjectsOf objects)). - LastModified k \<le> - LastModified d"
    by (metis (no_types, lifting) append_take_drop_id map_append sorted_append set_map imageI)
  then show ?thesis
    by auto
qed

lemma pruneLocalHistory_v1_trace:
  fixes s :: "('r, 'w) state"
  assumes "pruneLocalHistory_v1 E env keepCount s = (r, s')" and "0 < keepCount"
  shows "\<exists>listing rest.
           trace s' = trace s
             @ Readdir (path_join [dirname env, ''..'', ''output'', ''history'']) listing # rest
           \<and> (case listing of
                 Inl e \<Rightarrow> rest = []
               | Inr files \<Rightarrow> followsPlan Unlink (localDeletions env keepCount files) rest)"
proof -
  let ?dir = "path_join [dirname env, ''..'', ''output'', ''history'']"
  let ?h = "\<lambda>error. (if error = Undefined then throwE typeError
                  else if code error \<noteq> Some ''ENOENT'' then throwE error else returnE ())
                 :: (('r, 'w) state, unit) io"
  have h: "s2 = s1" if "?h e s1 = (r', s2)" for e s1 r' s2
    using that by (auto simp: throwE_def returnE_def split: if_splits)
  obtain listing w1 where l: "list_dir E ?dir (world s) = (listing, w1)"
    by (cases "list_dir E ?dir (world s)")
  define s1 where "s1 = s\<lparr>trace := trace s @ [Readdir ?dir listing], world := w1\<rparr>"
  have lg: "logged (Readdir ?dir) (list_dir E ?dir) s = (listing, s1)"
    using l by (simp add: logged_def s1_def)
  show ?thesis
  proof (cases listing)
    case (Inl e)
    with assms(1) lg have "?h e s1 = (r, s')"
      by (simp add: pruneLocalHistory_v1_def Let_def catchE_def bindE_def)
    from h [OF this] have "trace s' = trace s @ Readdir ?dir listing # []"
      by (simp add: s1_def)
    with Inl show ?thesis
      by (intro exI [of _ listing] exI [of _ "[]"]) simp
  next
    case (Inr files)
    show ?thesis
    proof (cases "int (length (csvFilesOf files)) > keepCount")
      case False
      with assms(1) lg Inr have "s' = s1"
        by (simp add: pruneLocalHistory_v1_def Let_def catchE_def bindE_def returnE_def)
      then have "trace s' = trace s @ Readdir ?dir listing # []"
        by (simp add: s1_def)
      moreover from False assms(2) have "localDeletions env keepCount files = []"
        by (simp add: localDeletions_def)
      ultimately show ?thesis
        using Inr by (intro exI [of _ listing] exI [of _ "[]"]) simp
    next
      case True
      obtain r0 s0 where u: "unlinkAll E ?dir (drop (nat keepCount) (csvFilesOf files)) s1
          = (r0, s0)"
        by (cases "unlinkAll E ?dir (drop (nat keepCount) (csvFilesOf files)) s1")
      have "s' = s0"
      proof (cases r0)
        case (Inl e)
        with assms(1) lg Inr True u have "?h e s0 = (r, s')"
          by (simp add: pruneLocalHistory_v1_def Let_def catchE_def bindE_def)
        from h [OF this] show ?thesis .
      next
        case (Inr v)
        with assms(1) lg \<open>listing = Inr files\<close> True u show ?thesis
          by (simp add: pruneLocalHistory_v1_def Let_def catchE_def bindE_def)
      qed
      moreover from unlinkAll_trace [OF u] obtain rest where rest: "trace s0 = trace s1 @ rest"
        "followsPlan Unlink
           (map (\<lambda>file. path_join [?dir, file]) (drop (nat keepCount) (csvFilesOf files))) rest"
        by blast
      ultimately have "trace s' = trace s @ Readdir ?dir listing # rest"
        by (simp add: s1_def)
      moreover from rest have "followsPlan Unlink (localDeletions env keepCount files) rest"
        by (simp add: localDeletions_def)
      ultimately show ?thesis
        using Inr by (intro exI [of _ listing] exI [of _ rest]) simp
    qed
  qed
qed

lemma pruneS3History_v1_trace:
  fixes s :: "('r, 'w) state"
  assumes "pruneS3History_v1 E env keepCount s = (r, s')" and "0 < keepCount"
    and "S3_ENDPOINT env \<noteq> []" and "S3_BUCKET env \<noteq> []"
  shows "\<exists>listing rest.
           trace s' = trace s
             @ Listed (orDefault (S3_KEY_PREFIX_HISTORY env) ''ingrosmart/history/'') listing # rest
           \<and> (case listing of
                 Inl e \<Rightarrow> rest = []
               | Inr None \<Rightarrow> rest = []
               | Inr (Some objects) \<Rightarrow>
                   followsPlan DeleteObject (s3Deletions keepCount objects) rest)"
proof -
  let ?p = "orDefault (S3_KEY_PREFIX_HISTORY env) ''ingrosmart/history/''"
  obtain listing w1 where l: "list_objects E ?p (world s) = (listing, w1)"
    by (cases "list_objects E ?p (world s)")
  define s1 where "s1 = s\<lparr>trace := trace s @ [Listed ?p listing], world := w1\<rparr>"
  have lg: "logged (Listed ?p) (list_objects E ?p) s = (listing, s1)"
    using l by (simp add: logged_def s1_def)
  have t1: "trace s1 = trace s @ Listed ?p listing # []"
    by (simp add: s1_def)
  show ?thesis
  proof (cases listing)
    case (Inl e)
    with assms lg have "s' = s1"
      by (simp add: pruneS3History_v1_def Let_def bindE_def)
    with t1 Inl show ?thesis
      by (intro exI [of _ listing] exI [of _ "[]"]) simp
  next
    case (Inr contents)
    show ?thesis
    proof (cases contents)
      case None
      with assms lg Inr have "s' = s1"
        by (simp add: pruneS3History_v1_def Let_def bindE_def returnE_def)
      with t1 Inr None show ?thesis
        by (intro exI [of _ listing] exI [of _ "[]"]) simp
    next
      case (Some objects)
      have len: "length (sortedObjectsOf objects) \<le> length objects"
        by (simp add: sortedObjectsOf_def)
      show ?thesis
      proof (cases "int (length objects) \<le> keepCount \<or> int (length (sortedObjectsOf objects)) \<le> keepCount")
        case True
        with assms lg Inr Some have "s' = s1"
          by (auto simp: pruneS3History_v1_def Let_def bindE_def returnE_def split: if_splits)
        moreover from True len assms(2) have "s3Deletions keepCount objects = []"
          by (auto simp: s3Deletions_def)
        ultimately show ?thesis
          using t1 Inr Some by (intro exI [of _ listing] exI [of _ "[]"]) simp
      next
        case False
        with assms lg Inr Some
        have "deleteAll E (drop (nat keepCount) (sortedObjectsOf objects)) s1 = (r, s')"
          by (simp add: pruneS3History_v1_def Let_def bindE_def)
        from deleteAll_trace [OF this] obtain rest where rest: "trace s' = trace s1 @ rest"
          "followsPlan DeleteObject (map Key (drop (nat keepCount) (sortedObjectsOf objects))) rest"
          by blast
        then have "trace s' = trace s @ Listed ?p listing # rest"
          "followsPlan DeleteObject (s3Deletions keepCount objects) rest"
          by (simp_all add: s1_def s3Deletions_def)
        then show ?thesis
          using Inr Some by (intro exI [of _ listing] exI [of _ rest]) simp
      qed
    qed
  qed
qed

text \<open>The \<open>catch\<close> of \<open>pruneHistory\<close> adds no event.\<close>

lemma pruneHistory_v1_catch:
  assumes "catchE m (\<lambda>error. case message error of None \<Rightarrow> throwE typeError
             | Some msg \<Rightarrow> returnE ()) s = (r, s')"
  shows "\<exists>r0. m s = (r0, s')"
  using assms
  by (auto simp: catchE_def throwE_def returnE_def split: prod.splits sum.splits option.splits)

section \<open>Claims about \<open>withRetry\<close>\<close>

text \<open>
  C1, as stated, fails for an operation that throws \<open>undefined\<close> (a promise rejected with
  no reason): before it sleeps, \<open>withRetry\<close> reads the message of what was thrown, and
  that read throws a \<open>TypeError\<close>. With \<open>retries = 2\<close> such an operation is invoked once,
  not three times, and \<open>withRetry\<close> throws the \<open>TypeError\<close>, not the value the operation
  threw.
\<close>

theorem withRetry_undefined_counterexample:
  "withRetry idle_env (invoke rejects)
       \<lparr>opt_retries = Some 2, opt_baseDelayMs = Some 100, opt_maxDelayMs = Some 30000\<rparr>
       \<lparr>trace = [], world = 0\<rparr>
     = (Inl typeError, \<lparr>trace = [Invoked (Inl Undefined)], world = 1\<rparr>)
   \<and> typeError \<noteq> Undefined"
  by (simp add: withRetry_def withRetry_loop.simps invoke_def logged_def rejects_def
      typeError_def)

text \<open>
  C1, amended. Run \<open>withRetry\<close> with the policy \<open>{retries, baseDelayMs, maxDelayMs}\<close>
  around any operation \<open>fn\<close>, from an empty trace. Let \<open>outs\<close> be the outcomes of the
  invocations of \<open>fn\<close>, in order. Then there are at most \<open>retries + 1\<close> of them; the
  trace is exactly these invocations with, between invocation \<open>k\<close> and invocation
  \<open>k + 1\<close>, one sleep of \<open>min (baseDelayMs * 2^(k-1)) maxDelayMs\<close>; every invocation but
  the last threw. If the last invocation returned, \<open>withRetry\<close> returns its value
  (nothing follows it in the trace). If it threw, and none of the first \<open>retries\<close>
  invocations threw \<open>undefined\<close>, it was invocation \<open>retries + 1\<close> and \<open>withRetry\<close>
  throws the very value it threw.
\<close>

theorem withRetry_attempts_and_backoff:
  assumes "withRetry E (invoke fn)
             \<lparr>opt_retries = Some retries, opt_baseDelayMs = Some b, opt_maxDelayMs = Some m\<rparr>
             \<lparr>trace = [], world = w\<rparr> = (res, s1)"
  shows "invocations (trace s1) \<noteq> []
     \<and> length (invocations (trace s1)) \<le> retries + 1
     \<and> trace s1 = backoff_schedule b m 1 (invocations (trace s1))
     \<and> (\<forall>r \<in> set (butlast (invocations (trace s1))). isl r)
     \<and> (case last (invocations (trace s1)) of
           Inr v \<Rightarrow> res = Inr v
         | Inl e \<Rightarrow>
             Inl Undefined \<notin> set (take retries (invocations (trace s1)))
             \<longrightarrow> res = Inl e \<and> length (invocations (trace s1)) = retries + 1)"
proof -
  from assms
  have run: "withRetry_loop E (invoke fn) retries b m 1 Undefined \<lparr>trace = [], world = w\<rparr>
      = (res, s1)"
    by (simp add: withRetry_def)
  have "(1::nat) \<le> retries + 1"
    by simp
  from withRetry_loop_trace [OF this run] obtain outs where o: "outs \<noteq> []"
    "trace s1 = backoff_schedule b m 1 outs" "1 + length outs \<le> retries + 2"
    "\<forall>r \<in> set (butlast outs). isl r \<and> r \<noteq> Inl Undefined"
    "(case last outs of Inr v \<Rightarrow> res = Inr v
       | Inl e \<Rightarrow> if 1 + length outs = retries + 2 then res = Inl e
                  else e = Undefined \<and> res = Inl typeError)"
    by auto
  have inv: "invocations (trace s1) = outs"
    by (simp add: o(2) invocations_schedule)
  have fin: "case last outs of
               Inr v \<Rightarrow> res = Inr v
             | Inl e \<Rightarrow> Inl Undefined \<notin> set (take retries outs)
                        \<longrightarrow> res = Inl e \<and> length outs = retries + 1"
  proof (cases "last outs")
    case (Inr v)
    with o(5) show ?thesis
      by simp
  next
    case (Inl e)
    show ?thesis
    proof (cases "1 + length outs = retries + 2")
      case True
      with o(5) Inl show ?thesis
        by simp
    next
      case False
      with o(3) have "length outs \<le> retries"
        by simp
      then have "take retries outs = outs"
        by simp
      moreover from o(5) Inl False have "last outs = Inl Undefined"
        by simp
      ultimately have "Inl Undefined \<in> set (take retries outs)"
        using o(1) last_in_set [of outs] by simp
      with Inl show ?thesis
        by simp
    qed
  qed
  have "length outs \<le> retries + 1"
    using o(3) by simp
  moreover have "\<forall>r \<in> set (butlast outs). isl r"
    using o(4) by blast
  ultimately show ?thesis
    unfolding inv using o(1,2) fin by blast
qed

text \<open>
  The two runs of the spec's tests: an operation that always fails, with \<open>retries = 2\<close>
  and \<open>baseDelayMs = 100\<close>, is invoked three times with sleeps of 100 and 200 and its
  error is thrown again; one that fails once is invoked twice and its value returned.
\<close>

theorem withRetry_attempts_and_backoff_witness:
  "withRetry idle_env (invoke (flaky 5))
       \<lparr>opt_retries = Some 2, opt_baseDelayMs = Some 100, opt_maxDelayMs = Some 30000\<rparr>
       \<lparr>trace = [], world = 0\<rparr>
     = (Inl (Error ''Test retry error''),
        \<lparr>trace = [Invoked (Inl (Error ''Test retry error'')), Slept 100,
                  Invoked (Inl (Error ''Test retry error'')), Slept 200,
                  Invoked (Inl (Error ''Test retry error''))],
         world = 3\<rparr>)
   \<and> withRetry idle_env (invoke (flaky 1))
       \<lparr>opt_retries = Some 2, opt_baseDelayMs = Some 500, opt_maxDelayMs = Some 30000\<rparr>
       \<lparr>trace = [], world = 0\<rparr>
     = (Inr ''success'',
        \<lparr>trace = [Invoked (Inl (Error ''Test retry error'')), Slept 500, Invoked (Inr ''success'')],
         world = 2\<rparr>)
   \<and> Inl Undefined \<notin> set (take 2 (invocations
         [Invoked (Inl (Error ''Test retry error'')), Slept 100,
          Invoked (Inl (Error ''Test retry error'')), Slept 200,
          Invoked (Inl (Error ''Test retry error'')) :: string event]))
   \<and> length (invocations [Invoked (Inl (Error ''Test retry error'')), Slept 100,
                  Invoked (Inl (Error ''Test retry error'')), Slept 200,
                  Invoked (Inl (Error ''Test retry error'')) :: string event]) = 2 + 1"
proof -
  have a: "withRetry idle_env (invoke (flaky 5))
       \<lparr>opt_retries = Some 2, opt_baseDelayMs = Some 100, opt_maxDelayMs = Some 30000\<rparr>
       \<lparr>trace = [], world = 0\<rparr>
     = (Inl (Error ''Test retry error''),
        \<lparr>trace = [Invoked (Inl (Error ''Test retry error'')), Slept 100,
                  Invoked (Inl (Error ''Test retry error'')), Slept 200,
                  Invoked (Inl (Error ''Test retry error''))],
         world = 3\<rparr>)"
    by (simp add: withRetry_def withRetry_loop.simps invoke_def logged_def flaky_def sleep_def
        idle_env_def)
  have b: "withRetry idle_env (invoke (flaky 1))
       \<lparr>opt_retries = Some 2, opt_baseDelayMs = Some 500, opt_maxDelayMs = Some 30000\<rparr>
       \<lparr>trace = [], world = 0\<rparr>
     = (Inr ''success'',
        \<lparr>trace = [Invoked (Inl (Error ''Test retry error'')), Slept 500, Invoked (Inr ''success'')],
         world = 2\<rparr>)"
    by (simp add: withRetry_def withRetry_loop.simps invoke_def logged_def flaky_def sleep_def
        idle_env_def)
  from withRetry_attempts_and_backoff [OF a] a b show ?thesis
    by simp
qed
section \<open>Claims about \<open>ensureCsv\<close>\<close>

text \<open>
  C4. Whenever the declared content type, lower-cased, contains \<open>text/html\<close> or
  \<open>application/xhtml\<close>, \<open>ensureCsv\<close> answers false, whatever the buffer holds.
\<close>

theorem ensureCsv_html_content_type:
  assumes "includes_str (toLowerCase contentType) ''text/html''
           \<or> includes_str (toLowerCase contentType) ''application/xhtml''"
  shows "ensureCsv buffer contentType = False"
  using assms by (simp add: ensureCsv_def Let_def)

theorem ensureCsv_html_content_type_witness:
  "includes_str (toLowerCase ''Text/HTML; charset=utf-8'') ''text/html''
   \<and> ensureCsv (''id,name,price'' @ [CHR 0x0A] @ ''1,Product,100'') ''Text/HTML; charset=utf-8''
       = False"
proof -
  have h: "includes_str (toLowerCase ''Text/HTML; charset=utf-8'') ''text/html''"
    by code_simp
  from h ensureCsv_html_content_type [of "''Text/HTML; charset=utf-8''"] show ?thesis
    by blast
qed

text \<open>
  C5. Whenever the sample of the buffer (its first 2048 bytes, decoded and lower-cased;
  trimmed or not) contains one of the HTML markers, \<open>ensureCsv\<close> answers false for every
  declared content type, the CSV content types included: the marker check comes before
  the rule that trusts the header.
\<close>

theorem ensureCsv_html_marker:
  assumes "marker \<in> set htmlMarkers"
    and "includes_str (sampleOf buffer) (ascii marker)
         \<or> includes_str (toLowerCase_text (toString_utf8 (take 2048 buffer))) (ascii marker)"
  shows "ensureCsv buffer contentType = False"
proof -
  have "includes_str (sampleOf buffer) (ascii marker)"
  proof (cases "includes_str (sampleOf buffer) (ascii marker)")
    case True
    then show ?thesis .
  next
    case False
    with assms(2)
    have "sublist (ascii marker) (toLowerCase_text (toString_utf8 (take 2048 buffer)))"
      by (simp add: includes_iff_sublist)
    then have "sublist (ascii marker)
                 (trim (toLowerCase_text (toString_utf8 (take 2048 buffer))))"
      using htmlMarkers_no_space [OF assms(1)] by (simp add: sublist_trim)
    then show ?thesis
      by (simp add: sampleOf_def sample_size includes_iff_sublist)
  qed
  with assms(1)
  have "list_ex (\<lambda>marker. includes_str (sampleOf buffer) (ascii marker)) htmlMarkers"
    by (auto simp: list_ex_iff)
  then show ?thesis
    by (simp add: ensureCsv_def Let_def)
qed

theorem ensureCsv_html_marker_witness:
  "''<!doctype'' \<in> set htmlMarkers
   \<and> includes_str (sampleOf ''<!DOCTYPE html><html><body>x</body></html>'') (ascii ''<!doctype'')
   \<and> ensureCsv ''<!DOCTYPE html><html><body>x</body></html>'' ''text/csv'' = False"
proof -
  have m: "''<!doctype'' \<in> set htmlMarkers"
    by (simp add: htmlMarkers_def)
  have i: "includes_str (sampleOf ''<!DOCTYPE html><html><body>x</body></html>'')
             (ascii ''<!doctype'')"
    by code_simp
  from m i ensureCsv_html_marker [OF m, of "''<!DOCTYPE html><html><body>x</body></html>''"]
  show ?thesis
    by blast
qed

text \<open>
  C6. The length and delimiter rules in their order. A buffer longer than 100 bytes whose
  sample (trimmed or not) holds none of comma, semicolon, tab and bar is rejected for
  every declared content type, so also for the CSV content types the later rule would
  trust. A buffer shorter than 100 bytes that passes the content-type check and the
  marker check is accepted, with or without delimiters, line breaks or a content type.
\<close>

theorem ensureCsv_length_rules:
  "(length buffer > 100
      \<and> (\<not> hasDelimiters (sampleOf buffer)
         \<or> \<not> hasDelimiters (toLowerCase_text (toString_utf8 (take 2048 buffer))))
      \<longrightarrow> ensureCsv buffer contentType = False)
   \<and> (length buffer < 100
        \<and> \<not> includes_str (toLowerCase contentType) ''text/html''
        \<and> \<not> includes_str (toLowerCase contentType) ''application/xhtml''
        \<and> \<not> list_ex (\<lambda>marker. includes_str (sampleOf buffer) (ascii marker)) htmlMarkers
      \<longrightarrow> ensureCsv buffer contentType = True)"
proof -
  have "hasDelimiters (sampleOf buffer)
        \<Longrightarrow> hasDelimiters (toLowerCase_text (toString_utf8 (take 2048 buffer)))"
    unfolding sampleOf_def Let_def sample_size by (rule hasDelimiters_trim)
  then show ?thesis
    by (auto simp: ensureCsv_def Let_def)
qed

text \<open>
  A hundred and one letters are rejected, also under the content type \<open>text/csv\<close>, and
  so are they when a tab and a no-break space follow them: \<open>trim\<close> takes both away, and
  with them the only delimiter. Five letters with no content type are accepted.
\<close>

theorem ensureCsv_length_rules_witness:
  "length (replicate 101 (CHR ''a'')) > 100
   \<and> \<not> hasDelimiters (sampleOf (replicate 101 (CHR ''a'')))
   \<and> ensureCsv (replicate 101 (CHR ''a'')) ''text/csv'' = False
   \<and> length (replicate 101 (CHR ''a'') @ [CHR 0x09, CHR 0xC2, CHR 0xA0]) > 100
   \<and> \<not> hasDelimiters (sampleOf (replicate 101 (CHR ''a'') @ [CHR 0x09, CHR 0xC2, CHR 0xA0]))
   \<and> ensureCsv (replicate 101 (CHR ''a'') @ [CHR 0x09, CHR 0xC2, CHR 0xA0]) ''text/csv'' = False
   \<and> length ''hello'' < 100
   \<and> \<not> includes_str (toLowerCase []) ''text/html''
   \<and> \<not> includes_str (toLowerCase []) ''application/xhtml''
   \<and> \<not> list_ex (\<lambda>marker. includes_str (sampleOf ''hello'') (ascii marker)) htmlMarkers
   \<and> ensureCsv ''hello'' [] = True"
proof -
  have a: "length (replicate 101 (CHR ''a'')) > 100"
    by simp
  have b: "\<not> hasDelimiters (sampleOf (replicate 101 (CHR ''a'')))"
    by code_simp
  have a': "length (replicate 101 (CHR ''a'') @ [CHR 0x09, CHR 0xC2, CHR 0xA0]) > 100"
    by simp
  have b': "\<not> hasDelimiters
              (sampleOf (replicate 101 (CHR ''a'') @ [CHR 0x09, CHR 0xC2, CHR 0xA0]))"
    by code_simp
  have c: "length ''hello'' < 100"
    by simp
  have d: "\<not> includes_str (toLowerCase []) ''text/html''"
    by code_simp
  have e: "\<not> includes_str (toLowerCase []) ''application/xhtml''"
    by code_simp
  have f: "\<not> list_ex (\<lambda>marker. includes_str (sampleOf ''hello'') (ascii marker)) htmlMarkers"
    by code_simp
  from a b a' b' c d e f
    ensureCsv_length_rules [of "replicate 101 (CHR ''a'')" "''text/csv''"]
    ensureCsv_length_rules [of "replicate 101 (CHR ''a'') @ [CHR 0x09, CHR 0xC2, CHR 0xA0]"
      "''text/csv''"]
    ensureCsv_length_rules [of "''hello''" "[]"]
  show ?thesis
    by blast
qed

text \<open>
  C10. The boundary of exactly 100 bytes: with no delimiter and no line break in the
  sample (trimmed or not), and a declared content type that is neither an HTML type nor
  one of the CSV types, \<open>ensureCsv\<close> answers false. Neither \<open>length > 100\<close> nor
  \<open>length < 100\<close> holds, and the final disjunction decides.
\<close>

theorem ensureCsv_exactly_100:
  assumes "length buffer = 100"
    and "\<not> hasDelimiters (sampleOf buffer)
         \<or> \<not> hasDelimiters (toLowerCase_text (toString_utf8 (take 2048 buffer)))"
    and "\<not> hasNewlines (sampleOf buffer)
         \<or> \<not> hasNewlines (toLowerCase_text (toString_utf8 (take 2048 buffer)))"
    and "\<not> includes_str (toLowerCase contentType) ''text/html''"
    and "\<not> includes_str (toLowerCase contentType) ''application/xhtml''"
    and "\<not> list_ex (\<lambda>type. includes_str (toLowerCase contentType) type) validTypes"
  shows "ensureCsv buffer contentType = False"
proof -
  have "hasDelimiters (sampleOf buffer)
        \<Longrightarrow> hasDelimiters (toLowerCase_text (toString_utf8 (take 2048 buffer)))"
    unfolding sampleOf_def Let_def sample_size by (rule hasDelimiters_trim)
  with assms(2) have d: "\<not> hasDelimiters (sampleOf buffer)"
    by blast
  have "hasNewlines (sampleOf buffer)
        \<Longrightarrow> hasNewlines (toLowerCase_text (toString_utf8 (take 2048 buffer)))"
    unfolding sampleOf_def Let_def sample_size by (rule hasNewlines_trim)
  with assms(3) have n: "\<not> hasNewlines (sampleOf buffer)"
    by blast
  from assms(1,4,5,6) d n show ?thesis
    by (simp add: ensureCsv_def Let_def)
qed

text \<open>
  A hundred letters with no content type are rejected, and so are ninety-seven letters
  followed by a tab and a no-break space (a hundred bytes, whose only delimiter \<open>trim\<close>
  takes away); ninety-nine letters are accepted.
\<close>

theorem ensureCsv_exactly_100_witness:
  "length (replicate 97 (CHR ''a'') @ [CHR 0x09, CHR 0xC2, CHR 0xA0]) = 100
   \<and> \<not> hasDelimiters (sampleOf (replicate 97 (CHR ''a'') @ [CHR 0x09, CHR 0xC2, CHR 0xA0]))
   \<and> \<not> hasNewlines (sampleOf (replicate 97 (CHR ''a'') @ [CHR 0x09, CHR 0xC2, CHR 0xA0]))
   \<and> \<not> includes_str (toLowerCase []) ''text/html''
   \<and> \<not> includes_str (toLowerCase []) ''application/xhtml''
   \<and> \<not> list_ex (\<lambda>type. includes_str (toLowerCase []) type) validTypes
   \<and> ensureCsv (replicate 97 (CHR ''a'') @ [CHR 0x09, CHR 0xC2, CHR 0xA0]) [] = False
   \<and> ensureCsv (replicate 100 (CHR ''a'')) [] = False
   \<and> ensureCsv (replicate 99 (CHR ''a'')) [] = True"
proof -
  have a: "length (replicate 97 (CHR ''a'') @ [CHR 0x09, CHR 0xC2, CHR 0xA0]) = 100"
    by simp
  have b: "\<not> hasDelimiters
             (sampleOf (replicate 97 (CHR ''a'') @ [CHR 0x09, CHR 0xC2, CHR 0xA0]))"
    by code_simp
  have c: "\<not> hasNewlines
             (sampleOf (replicate 97 (CHR ''a'') @ [CHR 0x09, CHR 0xC2, CHR 0xA0]))"
    by code_simp
  have d: "\<not> includes_str (toLowerCase []) ''text/html''"
    by code_simp
  have e: "\<not> includes_str (toLowerCase []) ''application/xhtml''"
    by code_simp
  have f: "\<not> list_ex (\<lambda>type. includes_str (toLowerCase []) type) validTypes"
    by code_simp
  have g: "ensureCsv (replicate 99 (CHR ''a'')) [] = True"
    by code_simp
  have h: "ensureCsv (replicate 100 (CHR ''a'')) [] = False"
    by code_simp
  from a b c d e f g h
    ensureCsv_exactly_100 [of "replicate 97 (CHR ''a'') @ [CHR 0x09, CHR 0xC2, CHR 0xA0]" "[]"]
  show ?thesis
    by blast
qed
section \<open>Claims about \<open>clickFirst\<close> and \<open>fillFirst\<close>\<close>

text \<open>
  C7, as stated, fails: the action itself sits inside the \<open>try\<close> block, so when the
  action on the first visible selector throws, the loop goes on to the later selectors.
  Here both selectors are visible and the click on the first one times out: \<open>clickFirst\<close>
  then clicks the second one and returns success.
\<close>

theorem clickFirst_first_visible_counterexample:
  "clickFirst sim_env [''#first'', ''#second'']
     \<lparr>trace = [] :: unit event list,
      world = \<lparr>sim_url = [], sim_visible = [''#first'', ''#second''],
               sim_broken = [Click ''#first''], sim_responses = [], sim_files = []\<rparr>\<rparr>
   = (Inr True,
      \<lparr>trace = [Did (Locator ''#first'') (Inr ()), IsVisible ''#first'' (Inr True),
                Did (Click ''#first'') (Inl (Error ''Timeout 30000ms exceeded'')),
                Did (Locator ''#second'') (Inr ()), IsVisible ''#second'' (Inr True),
                Did (Click ''#second'') (Inr ())],
       world = \<lparr>sim_url = [], sim_visible = [''#first'', ''#second''],
                sim_broken = [Click ''#first''], sim_responses = [], sim_files = []\<rparr>\<rparr>)"
  by (simp add: clickFirst_def tryFirst_def perform_def isVisible_def logged_def bindE_def
      catchE_def returnE_def sim_env_def)

text \<open>
  C7, amended. Run from an empty trace, \<open>clickFirst\<close> and \<open>fillFirst\<close> never throw, and
  the trace has one of two shapes. Either the result is false, and every selector of the
  list was examined once, in list order, and passed over (its lookup threw, its visibility
  check threw or answered false, or the action on it threw). Or the result is true, and
  the list is \<open>pre @ sel # post\<close> where the selectors of \<open>pre\<close> were examined in order and
  passed over, then \<open>sel\<close> was found visible and the action on it returned, and nothing
  follows: no selector of \<open>post\<close> is touched.
\<close>

theorem clickFirst_fillFirst_first_hit:
  assumes "clickFirst E selectorList \<lparr>trace = [], world = w\<rparr> = (clicked, s1)"
    and "fillFirst E selectorList v \<lparr>trace = [], world = w\<rparr> = (filled, s2)"
  shows "((\<exists>skips. length skips = length selectorList \<and> clicked = Inr False
             \<and> trace s1 = concat (map2 (skip_events Click) selectorList skips))
          \<or> (\<exists>pre sel post skips. selectorList = pre @ sel # post
             \<and> length skips = length pre \<and> clicked = Inr True
             \<and> trace s1 = concat (map2 (skip_events Click) pre skips) @ hit_events Click sel))
       \<and> ((\<exists>skips. length skips = length selectorList \<and> filled = Inr False
             \<and> trace s2 = concat (map2 (skip_events (\<lambda>sel. Fill sel v)) selectorList skips))
          \<or> (\<exists>pre sel post skips. selectorList = pre @ sel # post
             \<and> length skips = length pre \<and> filled = Inr True
             \<and> trace s2 = concat (map2 (skip_events (\<lambda>sel. Fill sel v)) pre skips)
                  @ hit_events (\<lambda>sel. Fill sel v) sel))"
  using firstVisible_trace [OF assms(1) [unfolded clickFirst_def]]
    firstVisible_trace [OF assms(2) [unfolded fillFirst_def]]
  by simp

text \<open>A list where only the third entry is visible: one action, on the third entry.\<close>

theorem clickFirst_fillFirst_first_hit_witness:
  "clickFirst sim_env [''#a'', ''#b'', ''#c'', ''#d'']
     \<lparr>trace = [] :: unit event list,
      world = \<lparr>sim_url = [], sim_visible = [''#c''], sim_broken = [Locator ''#b''],
               sim_responses = [], sim_files = []\<rparr>\<rparr>
   = (Inr True,
      \<lparr>trace = concat (map2 (skip_events Click) [''#a'', ''#b'']
                  [NotVisible, LookupThrew (Error ''Timeout 30000ms exceeded'')])
                @ hit_events Click ''#c'',
       world = \<lparr>sim_url = [], sim_visible = [''#c''], sim_broken = [Locator ''#b''],
                sim_responses = [], sim_files = []\<rparr>\<rparr>)
   \<and> fillFirst sim_env [''#a'', ''#b'', ''#c'', ''#d''] ''x''
     \<lparr>trace = [] :: unit event list,
      world = \<lparr>sim_url = [], sim_visible = [''#c''], sim_broken = [Locator ''#b''],
               sim_responses = [], sim_files = []\<rparr>\<rparr>
   = (Inr True,
      \<lparr>trace = concat (map2 (skip_events (\<lambda>sel. Fill sel ''x'')) [''#a'', ''#b'']
                  [NotVisible, LookupThrew (Error ''Timeout 30000ms exceeded'')])
                @ hit_events (\<lambda>sel. Fill sel ''x'') ''#c'',
       world = \<lparr>sim_url = [], sim_visible = [''#c''], sim_broken = [Locator ''#b''],
                sim_responses = [], sim_files = []\<rparr>\<rparr>)"
proof -
  note defs = clickFirst_def fillFirst_def tryFirst_def perform_def isVisible_def logged_def
    bindE_def catchE_def returnE_def sim_env_def hit_events_def
  have a: "clickFirst sim_env [''#a'', ''#b'', ''#c'', ''#d'']
     \<lparr>trace = [] :: unit event list,
      world = \<lparr>sim_url = [], sim_visible = [''#c''], sim_broken = [Locator ''#b''],
               sim_responses = [], sim_files = []\<rparr>\<rparr>
   = (Inr True,
      \<lparr>trace = concat (map2 (skip_events Click) [''#a'', ''#b'']
                  [NotVisible, LookupThrew (Error ''Timeout 30000ms exceeded'')])
                @ hit_events Click ''#c'',
       world = \<lparr>sim_url = [], sim_visible = [''#c''], sim_broken = [Locator ''#b''],
                sim_responses = [], sim_files = []\<rparr>\<rparr>)"
    by (simp add: defs)
  have b: "fillFirst sim_env [''#a'', ''#b'', ''#c'', ''#d''] ''x''
     \<lparr>trace = [] :: unit event list,
      world = \<lparr>sim_url = [], sim_visible = [''#c''], sim_broken = [Locator ''#b''],
               sim_responses = [], sim_files = []\<rparr>\<rparr>
   = (Inr True,
      \<lparr>trace = concat (map2 (skip_events (\<lambda>sel. Fill sel ''x'')) [''#a'', ''#b'']
                  [NotVisible, LookupThrew (Error ''Timeout 30000ms exceeded'')])
                @ hit_events (\<lambda>sel. Fill sel ''x'') ''#c'',
       world = \<lparr>sim_url = [], sim_visible = [''#c''], sim_broken = [Locator ''#b''],
                sim_responses = [], sim_files = []\<rparr>\<rparr>)"
    by (simp add: defs)
  from clickFirst_fillFirst_first_hit [OF a b] a b show ?thesis
    by blast
qed

section \<open>Claims about the login verification\<close>

text \<open>
  C3, as stated, fails: the URL test compares with the base URL followed by a slash, not
  with the base URL. Let the base URL be configured with its trailing slash,
  \<open>https://www.ingrosmart.it/\<close>, which is also how the browser writes the address of the
  root of the site. With the page at the root after the submit, its URL equals the base
  URL and holds no \<open>/login\<close>; no account indicator is visible; and the verification
  throws, after it has looked for both indicators.
\<close>

theorem verifyLogin_base_url_counterexample:
  "url sim_env \<lparr>sim_url = ''https://www.ingrosmart.it/'', sim_visible = [], sim_broken = [],
                sim_responses = [], sim_files = []\<rparr> = baseUrl cfg1
   \<and> \<not> includes_str (baseUrl cfg1) ''/login''
   \<and> verifyLogin sim_env cfg1 sels0
       \<lparr>trace = [] :: unit event list,
        world = \<lparr>sim_url = ''https://www.ingrosmart.it/'', sim_visible = [], sim_broken = [],
                 sim_responses = [], sim_files = []\<rparr>\<rparr>
     = (Inl (Error
          ''Login verification failed - still on login page or no account indicators found''),
        \<lparr>trace = [Did (Locator ''.customer-welcome'') (Inr ()),
                  IsVisible ''.customer-welcome'' (Inr False),
                  Did (Locator ''a.logout'') (Inr ()), IsVisible ''a.logout'' (Inr False)],
         world = \<lparr>sim_url = ''https://www.ingrosmart.it/'', sim_visible = [], sim_broken = [],
                  sim_responses = [], sim_files = []\<rparr>\<rparr>)"
  by (simp add: verifyLogin_def urlSignal_def perform_def isVisible_def logged_def bindE_def
      catchE_def returnE_def throwE_def sim_env_def cfg0_def cfg1_def sels0_def)

text \<open>
  C3, amended. The verification at the end of \<open>login\<close> returns true if and only if one of
  two signals fires. Signal 1: the current URL does not contain \<open>/login\<close> and contains
  \<open>/account\<close> or \<open>/dashboard\<close> or equals the base URL followed by \<open>/\<close>. Signal 2: during
  the verification, the visibility check of some configured account indicator answered
  true. When signal 1 fires, no indicator is looked at. When it does not, the
  verification looks at the configured indicators in their order, each by its lookup and
  its visibility check: it returns true at the first one found visible, looking at none
  after it, and throws once it has missed them all. Otherwise the verification throws
  its error, and so does \<open>login\<close>: the same error when no diagnostic screenshot is
  configured. In particular a URL equal to the base URL followed by \<open>/\<close> (free of
  \<open>/login\<close>) verifies with no indicator, and a URL that still contains \<open>/login\<close>, with no
  indicator seen visible, fails.
\<close>

theorem login_verification:
  assumes "verifyLogin E cfg sels s = (res, s')"
  shows "(res = Inr True \<longleftrightarrow>
            urlSignal cfg (url E (world s))
            \<or> (\<exists>ind \<in> set (sel_accountIndicators sels).
                  IsVisible ind (Inr True) \<in> set (drop (length (trace s)) (trace s'))))
       \<and> (res = Inr True \<or> res = Inl (Error
            ''Login verification failed - still on login page or no account indicators found''))
       \<and> (urlSignal cfg (url E (world s)) \<longrightarrow> trace s' = trace s)
       \<and> (\<not> urlSignal cfg (url E (world s)) \<longrightarrow>
            (\<exists>misses.
               (res = Inr True \<and> length misses < length (sel_accountIndicators sels)
                  \<and> trace s' = trace s
                       @ concat (map2 miss_events (sel_accountIndicators sels) misses)
                       @ seen_events (sel_accountIndicators sels ! length misses))
             \<or> (res \<noteq> Inr True \<and> length misses = length (sel_accountIndicators sels)
                  \<and> trace s' = trace s
                       @ concat (map2 miss_events (sel_accountIndicators sels) misses))))
       \<and> (urlSignal cfg (url E (world s)) \<longleftrightarrow>
            \<not> includes_str (url E (world s)) ''/login''
            \<and> (includes_str (url E (world s)) ''/account''
               \<or> includes_str (url E (world s)) ''/dashboard''
               \<or> url E (world s) = baseUrl cfg @ ''/''))
       \<and> (\<forall>s0 u. submitLogin E cfg sels s0 = (Inr u, s) \<longrightarrow>
             (res = Inr True \<longrightarrow> login E cfg sels s0 = (Inr True, s'))
             \<and> (res \<noteq> Inr True \<longrightarrow> isl (fst (login E cfg sels s0)))
             \<and> (\<not> screenshotOnError cfg \<longrightarrow> login E cfg sels s0 = (res, s')))"
proof -
  let ?msg = "''Login verification failed - still on login page or no account indicators found''"
  let ?new = "drop (length (trace s)) (trace s')"
  have sig: "(res = Inr True \<longleftrightarrow>
            urlSignal cfg (url E (world s))
            \<or> (\<exists>ind \<in> set (sel_accountIndicators sels). IsVisible ind (Inr True) \<in> set ?new))
       \<and> (res = Inr True \<or> res = Inl (Error ?msg))"
  proof (cases "urlSignal cfg (url E (world s))")
    case True
    with assms have "res = Inr True"
      by (simp add: verifyLogin_def bindE_def returnE_def)
    with True show ?thesis by simp
  next
    case False
    obtain r1 s1 where i: "indicatorSignal E (sel_accountIndicators sels) s = (r1, s1)"
      by (cases "indicatorSignal E (sel_accountIndicators sels) s")
    from indicatorSignal_trace [OF i] obtain new where n: "trace s1 = trace s @ new"
      "r1 = Inr (\<exists>ind \<in> set (sel_accountIndicators sels). IsVisible ind (Inr True) \<in> set new)"
      by blast
    from assms False i n(2) have s': "s' = s1"
      by (auto simp: verifyLogin_def bindE_def returnE_def throwE_def split: if_splits)
    from assms False i n(2)
    have r: "res = (if (\<exists>ind \<in> set (sel_accountIndicators sels).
                          IsVisible ind (Inr True) \<in> set new)
                    then Inr True else Inl (Error ?msg))"
      by (auto simp: verifyLogin_def bindE_def returnE_def throwE_def split: if_splits)
    have "?new = new"
      by (simp add: s' n(1))
    with r False show ?thesis
      by auto
  qed
  have quiet: "urlSignal cfg (url E (world s)) \<longrightarrow> trace s' = trace s"
    using assms by (auto simp: verifyLogin_def bindE_def returnE_def)
  have probes: "\<not> urlSignal cfg (url E (world s)) \<longrightarrow>
            (\<exists>misses.
               (res = Inr True \<and> length misses < length (sel_accountIndicators sels)
                  \<and> trace s' = trace s
                       @ concat (map2 miss_events (sel_accountIndicators sels) misses)
                       @ seen_events (sel_accountIndicators sels ! length misses))
             \<or> (res \<noteq> Inr True \<and> length misses = length (sel_accountIndicators sels)
                  \<and> trace s' = trace s
                       @ concat (map2 miss_events (sel_accountIndicators sels) misses)))"
  proof
    assume no: "\<not> urlSignal cfg (url E (world s))"
    obtain r1 s1 where i: "indicatorSignal E (sel_accountIndicators sels) s = (r1, s1)"
      by (cases "indicatorSignal E (sel_accountIndicators sels) s")
    from indicatorSignal_shape [OF i] obtain misses where
      m: "(r1 = Inr True \<and> length misses < length (sel_accountIndicators sels)
              \<and> trace s1 = trace s
                   @ concat (map2 miss_events (sel_accountIndicators sels) misses)
                   @ seen_events (sel_accountIndicators sels ! length misses))
         \<or> (r1 = Inr False \<and> length misses = length (sel_accountIndicators sels)
              \<and> trace s1 = trace s
                   @ concat (map2 miss_events (sel_accountIndicators sels) misses))"
      by blast
    from assms no i m have s': "s' = s1"
      by (auto simp: verifyLogin_def bindE_def returnE_def throwE_def split: if_splits)
    from assms no i m have "res = Inr True \<longleftrightarrow> r1 = Inr True"
      by (auto simp: verifyLogin_def bindE_def returnE_def throwE_def split: if_splits)
    with m s' show "\<exists>misses.
               (res = Inr True \<and> length misses < length (sel_accountIndicators sels)
                  \<and> trace s' = trace s
                       @ concat (map2 miss_events (sel_accountIndicators sels) misses)
                       @ seen_events (sel_accountIndicators sels ! length misses))
             \<or> (res \<noteq> Inr True \<and> length misses = length (sel_accountIndicators sels)
                  \<and> trace s' = trace s
                       @ concat (map2 miss_events (sel_accountIndicators sels) misses))"
      by (intro exI [of _ misses]) auto
  qed
  have url: "urlSignal cfg (url E (world s)) \<longleftrightarrow>
            \<not> includes_str (url E (world s)) ''/login''
            \<and> (includes_str (url E (world s)) ''/account''
               \<or> includes_str (url E (world s)) ''/dashboard''
               \<or> url E (world s) = baseUrl cfg @ ''/'')"
    by (simp add: urlSignal_def)
  have fatal: "\<forall>s0 u. submitLogin E cfg sels s0 = (Inr u, s) \<longrightarrow>
             (res = Inr True \<longrightarrow> login E cfg sels s0 = (Inr True, s'))
             \<and> (res \<noteq> Inr True \<longrightarrow> isl (fst (login E cfg sels s0)))
             \<and> (\<not> screenshotOnError cfg \<longrightarrow> login E cfg sels s0 = (res, s'))"
  proof (intro allI impI)
    fix s0 u
    assume sub: "submitLogin E cfg sels s0 = (Inr u, s)"
    from sig have "res = Inr True \<or> res = Inl (Error ?msg)"
      by blast
    then show "(res = Inr True \<longrightarrow> login E cfg sels s0 = (Inr True, s'))
             \<and> (res \<noteq> Inr True \<longrightarrow> isl (fst (login E cfg sels s0)))
             \<and> (\<not> screenshotOnError cfg \<longrightarrow> login E cfg sels s0 = (res, s'))"
    proof
      assume "res = Inr True"
      with sub assms show ?thesis
        by (simp add: login_def bindE_def catchE_def)
    next
      assume r: "res = Inl (Error ?msg)"
      obtain r2 s2 where c: "captureScreenshot E cfg ''login-error'' s' = (r2, s2)"
        by (cases "captureScreenshot E cfg ''login-error'' s'")
      from sub assms r c have "isl (fst (login E cfg sels s0))"
        by (cases r2) (simp_all add: login_def bindE_def catchE_def throwE_def)
      moreover have "\<not> screenshotOnError cfg \<longrightarrow> login E cfg sels s0 = (res, s')"
        using sub assms r
        by (simp add: login_def bindE_def catchE_def throwE_def captureScreenshot_def returnE_def)
      ultimately show ?thesis
        using r by simp
    qed
  qed
  from sig quiet probes url fatal show ?thesis
    by blast
qed

text \<open>
  The two cases of the spec's test, with the base URL followed by a slash: it verifies
  with no indicator visible, and no indicator is looked at; the login page with no
  indicator visible does not. And signal 2 alone: on a page of the shop that is neither,
  with the second indicator visible, the verification looks at the first, sees the
  second, and returns true.
\<close>

theorem login_verification_witness:
  "verifyLogin sim_env cfg0 sels0
       \<lparr>trace = [] :: unit event list,
        world = \<lparr>sim_url = baseUrl cfg0 @ ''/'', sim_visible = [], sim_broken = [],
                 sim_responses = [], sim_files = []\<rparr>\<rparr>
     = (Inr True,
        \<lparr>trace = [],
         world = \<lparr>sim_url = baseUrl cfg0 @ ''/'', sim_visible = [], sim_broken = [],
                  sim_responses = [], sim_files = []\<rparr>\<rparr>)
   \<and> urlSignal cfg0 (baseUrl cfg0 @ ''/'')
   \<and> fst (verifyLogin sim_env cfg0 sels0
       \<lparr>trace = [] :: unit event list,
        world = \<lparr>sim_url = loginUrl cfg0, sim_visible = [], sim_broken = [],
                 sim_responses = [], sim_files = []\<rparr>\<rparr>)
     = Inl (Error
         ''Login verification failed - still on login page or no account indicators found'')
   \<and> \<not> urlSignal cfg0 ''https://www.ingrosmart.it/checkout/cart/''
   \<and> verifyLogin sim_env cfg0 sels0
       \<lparr>trace = [] :: unit event list,
        world = \<lparr>sim_url = ''https://www.ingrosmart.it/checkout/cart/'',
                 sim_visible = [''a.logout''], sim_broken = [],
                 sim_responses = [], sim_files = []\<rparr>\<rparr>
     = (Inr True,
        \<lparr>trace = [Did (Locator ''.customer-welcome'') (Inr ()),
                  IsVisible ''.customer-welcome'' (Inr False),
                  Did (Locator ''a.logout'') (Inr ()), IsVisible ''a.logout'' (Inr True)],
         world = \<lparr>sim_url = ''https://www.ingrosmart.it/checkout/cart/'',
                  sim_visible = [''a.logout''], sim_broken = [],
                  sim_responses = [], sim_files = []\<rparr>\<rparr>)"
proof -
  note defs = verifyLogin_def urlSignal_def perform_def isVisible_def logged_def bindE_def
    catchE_def returnE_def throwE_def sim_env_def cfg0_def sels0_def
  have a: "verifyLogin sim_env cfg0 sels0
       \<lparr>trace = [] :: unit event list,
        world = \<lparr>sim_url = baseUrl cfg0 @ ''/'', sim_visible = [], sim_broken = [],
                 sim_responses = [], sim_files = []\<rparr>\<rparr>
     = (Inr True,
        \<lparr>trace = [],
         world = \<lparr>sim_url = baseUrl cfg0 @ ''/'', sim_visible = [], sim_broken = [],
                  sim_responses = [], sim_files = []\<rparr>\<rparr>)"
    by (simp add: defs)
  have b: "fst (verifyLogin sim_env cfg0 sels0
       \<lparr>trace = [] :: unit event list,
        world = \<lparr>sim_url = loginUrl cfg0, sim_visible = [], sim_broken = [],
                 sim_responses = [], sim_files = []\<rparr>\<rparr>)
     = Inl (Error
         ''Login verification failed - still on login page or no account indicators found'')"
    by (simp add: defs)
  have c: "url sim_env \<lparr>sim_url = baseUrl cfg0 @ ''/'', sim_visible = [], sim_broken = [],
                 sim_responses = [], sim_files = []\<rparr> = baseUrl cfg0 @ ''/''"
    by (simp add: sim_env_def)
  have d: "verifyLogin sim_env cfg0 sels0
       \<lparr>trace = [] :: unit event list,
        world = \<lparr>sim_url = ''https://www.ingrosmart.it/checkout/cart/'',
                 sim_visible = [''a.logout''], sim_broken = [],
                 sim_responses = [], sim_files = []\<rparr>\<rparr>
     = (Inr True,
        \<lparr>trace = [Did (Locator ''.customer-welcome'') (Inr ()),
                  IsVisible ''.customer-welcome'' (Inr False),
                  Did (Locator ''a.logout'') (Inr ()), IsVisible ''a.logout'' (Inr True)],
         world = \<lparr>sim_url = ''https://www.ingrosmart.it/checkout/cart/'',
                  sim_visible = [''a.logout''], sim_broken = [],
                  sim_responses = [], sim_files = []\<rparr>\<rparr>)"
    by (simp add: defs)
  have e: "\<not> urlSignal cfg0 ''https://www.ingrosmart.it/checkout/cart/''"
    by (simp add: urlSignal_def cfg0_def)
  from login_verification [OF a] login_verification [OF d] a b c d e show ?thesis
    by simp
qed
section \<open>Claims about the download flow\<close>







section \<open>Claims about the agent\<close>

lemma bindE_assoc: "bindE (bindE m f) g = bindE m (\<lambda>x. bindE (f x) g)"
  by (rule ext) (simp add: bindE_def split: prod.splits sum.splits)

lemma bindE_returns:
  assumes "bindE m f s = (Inr v, s')"
  shows "\<exists>x s1. f x s1 = (Inr v, s')"
  using assms by (auto simp: bindE_def split: prod.splits sum.splits)

lemma formEvent_not_delivery: "formEvent ev \<Longrightarrow> \<not> isDelivery ev"
  by (cases ev rule: formEvent.cases) simp_all

lemma emits_login_no_delivery: "emits (\<lambda>ev. \<not> isDelivery ev) (login E cfg sels)"
  unfolding emits_def
proof (intro allI impI)
  fix s r s'
  assume "login E cfg sels s = (r, s')"
  from login_trace [OF this] obtain g new
    where "trace s' = trace s @ Did (Goto (loginUrl cfg)) g # new" "list_all formEvent new"
    by blast
  then have "trace s' = trace s @ (Did (Goto (loginUrl cfg)) g # new)
      \<and> list_all (\<lambda>ev. \<not> isDelivery ev) (Did (Goto (loginUrl cfg)) g # new)"
    using formEvent_not_delivery by (auto simp: list_all_iff)
  then show "\<exists>new. trace s' = trace s @ new \<and> list_all (\<lambda>ev. \<not> isDelivery ev) new"
    by blast
qed

lemma emits_downloadCsv_no_delivery: "emits (\<lambda>ev. \<not> isDelivery ev) (downloadCsv E cfg)"
  unfolding emits_def
proof (intro allI impI)
  fix s r s'
  assume "downloadCsv E cfg s = (r, s')"
  from downloadCsv_trace [OF this] obtain fetched new
    where "trace s' = trace s @ Requested (exportUrl cfg) fetched # new"
      "list_all formEvent new"
    by blast
  then have "trace s' = trace s @ (Requested (exportUrl cfg) fetched # new)
      \<and> list_all (\<lambda>ev. \<not> isDelivery ev) (Requested (exportUrl cfg) fetched # new)"
    using formEvent_not_delivery by (auto simp: list_all_iff)
  then show "\<exists>new. trace s' = trace s @ new \<and> list_all (\<lambda>ev. \<not> isDelivery ev) new"
    by blast
qed

lemma emits_downloadWithRelogin_no_delivery:
  "emits (\<lambda>ev. \<not> isDelivery ev) (downloadWithRelogin E cfg sels)"
proof -
  have "emits (\<lambda>ev. \<not> isDelivery ev)
     (case message error of
        None \<Rightarrow> throwE typeError
      | Some msg \<Rightarrow>
          if includes_str msg ''HTML instead of CSV''
          then bindE (login E cfg sels) (\<lambda>_. downloadCsv E cfg)
          else throwE error)" for error
    by (cases "message error")
      (auto intro!: emits_intros emits_login_no_delivery emits_downloadCsv_no_delivery)
  then show ?thesis
    unfolding downloadWithRelogin_def
    by (intro emits_catchE emits_downloadCsv_no_delivery)
qed

text \<open>A value \<open>downloadCsv\<close> returns was accepted by the classifier, and its fetch is traced.\<close>

lemma downloadCsv_accepted:
  assumes "downloadCsv E cfg s = (Inr (buffer, contentType, bytes), s')"
  shows "accepted cfg (trace s') buffer \<and> ensureCsv buffer contentType"
proof -
  from downloadCsv_trace [OF assms] obtain fetched new
    where t: "trace s' = trace s @ Requested (exportUrl cfg) fetched # new"
      and c: "checkResponse fetched = Inr (buffer, contentType, bytes)"
    by blast
  from checkResponse_accepts [OF c] t show ?thesis
    by (auto simp: accepted_def)
qed

lemma downloadWithRelogin_accepted:
  assumes "downloadWithRelogin E cfg sels s = (Inr (buffer, contentType, bytes), s')"
  shows "accepted cfg (trace s') buffer"
proof -
  obtain r1 s1 where d: "downloadCsv E cfg s = (r1, s1)"
    by (cases "downloadCsv E cfg s")
  show ?thesis
  proof (cases r1)
    case (Inr v)
    with assms d have "downloadCsv E cfg s = (Inr (buffer, contentType, bytes), s')"
      by (simp add: downloadWithRelogin_def catchE_def)
    from downloadCsv_accepted [OF this] show ?thesis
      by simp
  next
    case (Inl e)
    with assms d
    have h: "(case message e of
        None \<Rightarrow> throwE typeError
      | Some msg \<Rightarrow>
          if includes_str msg ''HTML instead of CSV''
          then bindE (login E cfg sels) (\<lambda>_. downloadCsv E cfg)
          else throwE e) s1 = (Inr (buffer, contentType, bytes), s')"
      by (simp add: downloadWithRelogin_def catchE_def)
    have "bindE (login E cfg sels) (\<lambda>_. downloadCsv E cfg) s1
        = (Inr (buffer, contentType, bytes), s')"
    proof (cases "message e")
      case None
      with h show ?thesis
        by (simp add: throwE_def)
    next
      case (Some msg)
      with h show ?thesis
        by (cases "includes_str msg ''HTML instead of CSV''") (simp_all add: throwE_def)
    qed
    from bindE_returns [OF this]
    obtain sx where "downloadCsv E cfg sx = (Inr (buffer, contentType, bytes), s')"
      by blast
    from downloadCsv_accepted [OF this] show ?thesis
      by simp
  qed
qed

lemma accepted_mono: "accepted cfg tr buffer \<Longrightarrow> accepted cfg (tr @ new) buffer"
  by (auto simp: accepted_def)

text \<open>The deliveries in the trace of the \<open>try\<close> block: at most one, of an accepted buffer.\<close>

lemma agentSteps_deliveries:
  fixes s :: "('r, 'w) state"
  assumes "agentSteps E cfg sels s = (r, s')" and "trace s = []"
  shows "\<forall>buffer timestamp d. Did (Deliver buffer timestamp) d \<in> set (trace s')
           \<longrightarrow> accepted cfg (trace s') buffer"
proof -
  let ?nd = "\<lambda>ev :: 'r event. \<not> isDelivery ev"
  define D :: "(('r, 'w) state, string \<times> string \<times> nat) io" where
    "D = withRetry E (downloadWithRelogin E cfg sels)
           \<lparr>opt_retries = Some 2, opt_baseDelayMs = Some 2000, opt_maxDelayMs = None\<rparr>"
  define M :: "(('r, 'w) state, string \<times> string \<times> nat) io" where
    "M = bindE (perform E Launch) (\<lambda>browser.
         bindE (perform E NewContext) (\<lambda>context.
         bindE (perform E NewPage) (\<lambda>page.
         bindE (withRetry E (login E cfg sels)
              \<lparr>opt_retries = Some 2, opt_baseDelayMs = Some 3000, opt_maxDelayMs = None\<rparr>)
           (\<lambda>_. D))))"
  define K :: "string \<times> string \<times> nat \<Rightarrow> (('r, 'w) state, unit) io" where
    "K = (\<lambda>(buffer, contentType, bytes).
           bindE (generateTimestamp E) (\<lambda>timestamp.
           bindE (perform E (Deliver buffer timestamp)) (\<lambda>_.
           perform E (PruneHistory (target cfg) (keepHistory cfg)))))"
  have steps: "agentSteps E cfg sels = bindE M K"
    unfolding agentSteps_def M_def K_def D_def by (simp add: bindE_assoc)
  have eD: "emits ?nd D"
    unfolding D_def by (rule emits_withRetry) (simp_all add: emits_downloadWithRelogin_no_delivery)
  have eL: "emits ?nd (withRetry E (login E cfg sels)
              \<lparr>opt_retries = Some 2, opt_baseDelayMs = Some 3000, opt_maxDelayMs = None\<rparr>)"
    by (rule emits_withRetry) (simp_all add: emits_login_no_delivery)
  have eM: "emits ?nd M"
    unfolding M_def by (intro emits_intros emits_perform eL eD) simp_all
  obtain r1 s1 where m: "M s = (r1, s1)"
    by (cases "M s")
  from emitsD [OF eM m] assms(2) have nd1: "list_all ?nd (trace s1)"
    by auto
  show ?thesis
  proof (cases r1)
    case (Inl e)
    with assms(1) m have "s' = s1"
      by (simp add: steps bindE_def)
    with nd1 show ?thesis
      by (auto simp: list_all_iff)
  next
    case (Inr v)
    obtain buffer contentType bytes where v: "v = (buffer, contentType, bytes)"
      by (cases v)
    from m Inr have "M s = (Inr v, s1)"
      by simp
    from bindE_returns [OF this [unfolded M_def]] obtain sa
      where "bindE (perform E NewContext) (\<lambda>context.
         bindE (perform E NewPage) (\<lambda>page.
         bindE (withRetry E (login E cfg sels)
              \<lparr>opt_retries = Some 2, opt_baseDelayMs = Some 3000, opt_maxDelayMs = None\<rparr>)
           (\<lambda>_. D))) sa = (Inr v, s1)"
      by blast
    from bindE_returns [OF this] obtain sb
      where "bindE (perform E NewPage) (\<lambda>page.
         bindE (withRetry E (login E cfg sels)
              \<lparr>opt_retries = Some 2, opt_baseDelayMs = Some 3000, opt_maxDelayMs = None\<rparr>)
           (\<lambda>_. D)) sb = (Inr v, s1)"
      by blast
    from bindE_returns [OF this] obtain sc
      where "bindE (withRetry E (login E cfg sels)
              \<lparr>opt_retries = Some 2, opt_baseDelayMs = Some 3000, opt_maxDelayMs = None\<rparr>)
           (\<lambda>_. D) sc = (Inr v, s1)"
      by blast
    from bindE_returns [OF this] obtain s0 where "D s0 = (Inr v, s1)"
      by blast
    from withRetry_returns [OF this [unfolded D_def]] v
    obtain sx where "downloadWithRelogin E cfg sels sx = (Inr (buffer, contentType, bytes), s1)"
      by blast
    from downloadWithRelogin_accepted [OF this] have acc: "accepted cfg (trace s1) buffer" .
    obtain ts where ts: "generateTimestamp E s1 = (Inr ts, s1)"
      by (simp add: generateTimestamp_def Let_def returnE_def)
    obtain d s2 where dl: "perform E (Deliver buffer ts) s1 = (d, s2)"
      by (cases "perform E (Deliver buffer ts) s1")
    then have t2: "trace s2 = trace s1 @ [Did (Deliver buffer ts) d]"
      by (auto simp: perform_def logged_def split: prod.splits)
    from assms(1) m Inr v ts dl have k: "K v s1 = (r, s')"
      "(case d of Inl e \<Rightarrow> (Inl e, s2)
         | Inr u \<Rightarrow> perform E (PruneHistory (target cfg) (keepHistory cfg)) s2) = (r, s')"
      by (simp_all add: steps bindE_def K_def)
    have "\<exists>rest. trace s' = trace s2 @ rest \<and> list_all ?nd rest"
    proof (cases d)
      case (Inl e)
      with k(2) show ?thesis by auto
    next
      case (Inr u)
      with k(2) have "perform E (PruneHistory (target cfg) (keepHistory cfg)) s2 = (r, s')"
        by simp
      then have "trace s' = trace s2 @ [Did (PruneHistory (target cfg) (keepHistory cfg)) r]"
        by (auto simp: perform_def logged_def split: prod.splits)
      then show ?thesis by auto
    qed
    then obtain rest where rest: "trace s' = trace s1 @ Did (Deliver buffer ts) d # rest"
      "list_all ?nd rest"
      using t2 by auto
    show ?thesis
    proof (intro allI impI)
      fix b t d'
      assume "Did (Deliver b t) d' \<in> set (trace s')"
      with rest nd1 have "b = buffer"
        by (auto simp: list_all_iff)
      with acc rest(1) show "accepted cfg (trace s') b"
        by (simp add: accepted_mono)
    qed
  qed
qed

lemma deliveries_extend:
  assumes "\<forall>buffer timestamp d. Did (Deliver buffer timestamp) d \<in> set tr
             \<longrightarrow> accepted cfg tr buffer"
    and "list_all (\<lambda>ev. \<not> isDelivery ev) new"
  shows "\<forall>buffer timestamp d. Did (Deliver buffer timestamp) d \<in> set (tr @ new)
             \<longrightarrow> accepted cfg (tr @ new) buffer"
proof (intro allI impI)
  fix buffer timestamp d
  assume "Did (Deliver buffer timestamp) d \<in> set (tr @ new)"
  moreover have "Did (Deliver buffer timestamp) d \<notin> set new"
    using assms(2) by (auto simp: list_all_iff)
  ultimately have "Did (Deliver buffer timestamp) d \<in> set tr"
    by simp
  with assms(1) have "accepted cfg tr buffer"
    by blast
  then show "accepted cfg (tr @ new) buffer"
    by (rule accepted_mono)
qed

lemma closeQuietly_trace: "\<exists>d. trace (closeQuietly E a s) = trace s @ [Did a d]"
  by (auto simp: closeQuietly_def catchE_def perform_def logged_def returnE_def
      split: prod.splits sum.splits)

text \<open>
  C8. In every run of the agent from an empty trace, whatever buffer \<open>deliver\<close> is called
  with was fetched from the export endpoint with status 200 and accepted by \<open>ensureCsv\<close>
  under the content type of that response; and \<open>downloadCsv\<close> returns only what
  \<open>ensureCsv\<close> accepts (it throws on everything else).
\<close>

theorem deliver_only_accepted:
  fixes s' :: "('r, 'w) state"
  assumes "main E cfg sels \<lparr>trace = [], world = w\<rparr> = (exitCode, s')"
  shows "(\<forall>buffer timestamp d. Did (Deliver buffer timestamp) d \<in> set (trace s') \<longrightarrow>
            (\<exists>response. Requested (exportUrl cfg) (Inr response) \<in> set (trace s')
               \<and> resp_status response = 200 \<and> resp_body response = Inr buffer
               \<and> ensureCsv buffer (contentTypeOf response)))
       \<and> (\<forall>s buffer contentType bytes s1.
            downloadCsv E cfg s = (Inr (buffer, contentType, bytes), s1)
            \<longrightarrow> ensureCsv buffer contentType)"
proof
  let ?s = "\<lparr>trace = [] :: 'r event list, world = w\<rparr>"
  let ?I = "\<lambda>tr. \<forall>buffer timestamp d. Did (Deliver buffer timestamp) d \<in> set tr
              \<longrightarrow> accepted cfg tr buffer"
  have "?I (trace s')"
  proof (cases "username cfg = [] \<or> password cfg = []")
    case True
    with assms have "trace s' = [Exited 1]"
      by (auto simp: main_def exit_def)
    then show ?thesis by simp
  next
    case False
    with assms have run: "runAgent E cfg sels ?s = (exitCode, s')"
      by (simp add: main_def)
    obtain r s1 where a: "agentSteps E cfg sels ?s = (r, s1)"
      by (cases "agentSteps E cfg sels ?s")
    from agentSteps_deliveries [OF a] have I1: "?I (trace s1)"
      by simp
    show ?thesis
    proof (cases r)
      case (Inl e)
      with run a have "trace s' = trace s1 @ [Exited 1]"
        by (auto simp: runAgent_def exit_def)
      with deliveries_extend [OF I1, of "[Exited 1]"] show ?thesis
        by simp
    next
      case (Inr u)
      with run a
      have "s' = closeQuietly E CloseBrowser
                   (closeQuietly E CloseContext (closeQuietly E ClosePage s1))"
        by (simp add: runAgent_def)
      with closeQuietly_trace [of E ClosePage s1]
        closeQuietly_trace [of E CloseContext "closeQuietly E ClosePage s1"]
        closeQuietly_trace [of E CloseBrowser
          "closeQuietly E CloseContext (closeQuietly E ClosePage s1)"]
      obtain d1 d2 d3
        where "trace s' = trace s1 @ [Did ClosePage d1, Did CloseContext d2, Did CloseBrowser d3]"
        by auto
      with deliveries_extend
        [OF I1, of "[Did ClosePage d1, Did CloseContext d2, Did CloseBrowser d3]"]
      show ?thesis
        by simp
    qed
  qed
  then show "\<forall>buffer timestamp d. Did (Deliver buffer timestamp) d \<in> set (trace s') \<longrightarrow>
            (\<exists>response. Requested (exportUrl cfg) (Inr response) \<in> set (trace s')
               \<and> resp_status response = 200 \<and> resp_body response = Inr buffer
               \<and> ensureCsv buffer (contentTypeOf response))"
    by (simp add: accepted_def)
next
  show "\<forall>s buffer contentType bytes s1.
            downloadCsv E cfg s = (Inr (buffer, contentType, bytes), s1)
            \<longrightarrow> ensureCsv buffer contentType"
    using downloadCsv_accepted by blast
qed

text \<open>
  A run of the agent on the scripted site, whose session has expired at the first fetch:
  the run ends with exit code 0, and the one delivery is of the CSV of the second fetch.
\<close>

theorem deliver_only_accepted_witness:
  "fst (main sim_env cfg0 sels0
          \<lparr>trace = [] :: unit event list, world = site [] [Inr htmlPage, Inr csvFile]\<rparr>) = 0
   \<and> filter isDelivery (trace (snd (main sim_env cfg0 sels0
          \<lparr>trace = [] :: unit event list, world = site [] [Inr htmlPage, Inr csvFile]\<rparr>)))
     = [Did (Deliver (''id,name,price'' @ [CHR 0x0A] @ ''1,Product,100'') ''20240105-090730'')
          (Inr ())]
   \<and> Requested (exportUrl cfg0) (Inr csvFile)
       \<in> set (trace (snd (main sim_env cfg0 sels0
          \<lparr>trace = [] :: unit event list, world = site [] [Inr htmlPage, Inr csvFile]\<rparr>)))
   \<and> ensureCsv (''id,name,price'' @ [CHR 0x0A] @ ''1,Product,100'') (contentTypeOf csvFile)"
proof -
  have a: "fst (main sim_env cfg0 sels0
          \<lparr>trace = [] :: unit event list, world = site [] [Inr htmlPage, Inr csvFile]\<rparr>) = 0"
    by code_simp
  have b: "filter isDelivery (trace (snd (main sim_env cfg0 sels0
          \<lparr>trace = [] :: unit event list, world = site [] [Inr htmlPage, Inr csvFile]\<rparr>)))
     = [Did (Deliver (''id,name,price'' @ [CHR 0x0A] @ ''1,Product,100'') ''20240105-090730'')
          (Inr ())]"
    by code_simp
  have c: "Requested (exportUrl cfg0) (Inr csvFile)
       \<in> set (trace (snd (main sim_env cfg0 sels0
          \<lparr>trace = [] :: unit event list, world = site [] [Inr htmlPage, Inr csvFile]\<rparr>)))"
    by code_simp
  have d: "ensureCsv (''id,name,price'' @ [CHR 0x0A] @ ''1,Product,100'') (contentTypeOf csvFile)"
    by code_simp
  from deliver_only_accepted [OF surjective_pairing,
      of sim_env cfg0 sels0 "site [] [Inr htmlPage, Inr csvFile]"] a b c d
  show ?thesis
    by simp
qed

section \<open>Claims about the storage module\<close>

text \<open>
  C9, as stated, fails for the older revision: its \<open>pruneHistory\<close> returns at once when
  \<open>keepCount\<close> is not positive, and does nothing for the target \<open>wp\<close>. With two history
  files in place, \<open>keepCount = 0\<close> deletes neither of them (all but the newest 0 would be
  both), and the target \<open>wp\<close> with \<open>keepCount = 1\<close> deletes neither.
\<close>

theorem pruneHistory_v1_counterexample:
  "csvFilesOf [''ingrosmart-20240101-000000.csv'', ''ingrosmart-20240102-000000.csv'']
     = [''ingrosmart-20240102-000000.csv'', ''ingrosmart-20240101-000000.csv'']
   \<and> pruneHistory_v1 sim_env env0 ''fs'' 0
       \<lparr>trace = [] :: unit event list,
        world = (site [] [])\<lparr>sim_files :=
          [''ingrosmart-20240101-000000.csv'', ''ingrosmart-20240102-000000.csv'']\<rparr>\<rparr>
     = (Inr (),
        \<lparr>trace = [],
         world = (site [] [])\<lparr>sim_files :=
          [''ingrosmart-20240101-000000.csv'', ''ingrosmart-20240102-000000.csv'']\<rparr>\<rparr>)
   \<and> pruneHistory_v1 sim_env env0 ''wp'' 1
       \<lparr>trace = [] :: unit event list,
        world = (site [] [])\<lparr>sim_files :=
          [''ingrosmart-20240101-000000.csv'', ''ingrosmart-20240102-000000.csv'']\<rparr>\<rparr>
     = (Inr (),
        \<lparr>trace = [],
         world = (site [] [])\<lparr>sim_files :=
          [''ingrosmart-20240101-000000.csv'', ''ingrosmart-20240102-000000.csv'']\<rparr>\<rparr>)"
proof -
  have a: "csvFilesOf [''ingrosmart-20240101-000000.csv'', ''ingrosmart-20240102-000000.csv'']
     = [''ingrosmart-20240102-000000.csv'', ''ingrosmart-20240101-000000.csv'']"
    by code_simp
  show ?thesis
    using a by (simp add: pruneHistory_v1_def returnE_def catchE_def)
qed

lemma deliver_unfold:
  "deliver E env buffer timestamp s =
     deliverTo E env (orDefault (TARGET env) ''fs'') buffer
       (orDefault (WP_DEST_FILE env) ''ingrosmart_catalog.csv'')
       (backupFilename (minutes (clock E (world s)))) s"
  by (simp add: deliver_def Let_def)

lemma deliver_v1_unfold:
  "deliver_v1 E env buffer timestamp s =
     deliverTo E env (orDefault (TARGET env) ''fs'') buffer
       (orDefault (WP_DEST_FILE env) ''ingrosmart_catalog.csv'')
       (''ingrosmart-'' @ timestamp @ ''.csv'') s"
  by (simp add: deliver_v1_def Let_def)

text \<open>
  C9, amended. The most recent revision of \<open>deliver\<close> writes the catalog and then the
  history copy, the latter under one of two fixed names chosen by the minute of the hour:
  \<open>ingrosmart_backup_1.csv\<close> below 30, \<open>ingrosmart_backup_2.csv\<close> otherwise; it removes
  nothing, and its \<open>pruneHistory\<close> returns at once for every target and \<open>keepCount\<close>.
  The older revision writes the history copy under \<open>ingrosmart-<timestamp>.csv\<close>, never
  one of the two slot names. Its \<open>pruneHistory\<close> does nothing when \<open>keepCount\<close> is not
  positive or the target is neither \<open>fs\<close> nor \<open>s3\<close>. For \<open>fs\<close> with a positive
  \<open>keepCount\<close> it lists the history directory and then deletes, newest first, the files
  named \<open>ingrosmart-*.csv\<close> but the \<open>keepCount\<close> greatest by name; for \<open>s3\<close>
  (configured) it lists the history prefix and then deletes the listed
  \<open>ingrosmart-*.csv\<close> objects but the \<open>keepCount\<close> last modified. In both, the calls
  after the listing are exactly these deletions in their order, each made once the one
  before it has returned, and the first deletion that fails is the last call of the run.
  Every file it keeps is at least as new as every file it sets out to delete.
\<close>

theorem retention_policies:
  fixes w :: 'w
  assumes "deliver E env buffer timestamp \<lparr>trace = [] :: 'r event list, world = w\<rparr> = (r, s')"
    and "deliver_v1 E env buffer timestamp \<lparr>trace = [] :: 'r event list, world = w\<rparr> = (r1, s1)"
    and "pruneHistory_v1 E env tgt keepCount \<lparr>trace = [] :: 'r event list, world = w\<rparr>
           = (r2, s2)"
  shows "backupFilename minute
           = (if minute < 30 then ''ingrosmart_backup_1.csv'' else ''ingrosmart_backup_2.csv'')
     \<and> removals (trace s') = []
     \<and> prefix (destinations (trace s'))
          [catalogDestination env,
           historyDestination env (backupFilename (minutes (clock E w)))]
     \<and> (\<not> isl r \<longrightarrow> destinations (trace s')
          = [catalogDestination env,
             historyDestination env (backupFilename (minutes (clock E w)))])
     \<and> pruneHistory tgt keepCount st = (Inr (), st)
     \<and> removals (trace s1) = []
     \<and> prefix (destinations (trace s1))
          [catalogDestination env, historyDestination env (''ingrosmart-'' @ timestamp @ ''.csv'')]
     \<and> (\<not> isl r1 \<longrightarrow> destinations (trace s1)
          = [catalogDestination env,
             historyDestination env (''ingrosmart-'' @ timestamp @ ''.csv'')])
     \<and> backupFilename minute \<noteq> ''ingrosmart-'' @ timestamp @ ''.csv''
     \<and> (keepCount \<le> 0 \<or> (tgt \<noteq> ''fs'' \<and> tgt \<noteq> ''s3'') \<longrightarrow> r2 = Inr () \<and> trace s2 = [])
     \<and> (0 < keepCount \<and> tgt = ''fs'' \<longrightarrow>
          (\<exists>listing rest. trace s2 = Readdir (path_join [dirname env, ''..'', ''output'', ''history'']) listing
                              # rest
             \<and> (case listing of
                   Inl e \<Rightarrow> rest = []
                 | Inr files \<Rightarrow> followsPlan Unlink (localDeletions env keepCount files) rest)))
     \<and> (0 < keepCount \<and> tgt = ''s3'' \<and> S3_ENDPOINT env \<noteq> [] \<and> S3_BUCKET env \<noteq> [] \<longrightarrow>
          (\<exists>listing rest.
             trace s2 = Listed (orDefault (S3_KEY_PREFIX_HISTORY env) ''ingrosmart/history/'')
                          listing # rest
             \<and> (case listing of
                   Inl e \<Rightarrow> rest = []
                 | Inr None \<Rightarrow> rest = []
                 | Inr (Some objects) \<Rightarrow> followsPlan DeleteObject (s3Deletions keepCount objects)
                                            rest)))
     \<and> (0 < keepCount \<and> tgt = ''s3'' \<and> (S3_ENDPOINT env = [] \<or> S3_BUCKET env = [])
          \<longrightarrow> trace s2 = [])
     \<and> (\<forall>k \<in> set (take n (csvFilesOf files)). \<forall>d \<in> set (drop n (csvFilesOf files)). d \<le> k)
     \<and> (\<forall>k \<in> set (take n (sortedObjectsOf objects)).
          \<forall>d \<in> set (drop n (sortedObjectsOf objects)). LastModified d \<le> LastModified k)"
proof -
  let ?s = "\<lparr>trace = [] :: 'r event list, world = w\<rparr>"
  have name: "backupFilename minute
           = (if minute < 30 then ''ingrosmart_backup_1.csv'' else ''ingrosmart_backup_2.csv'')"
    by (simp add: backupFilename_def Let_def)
  from deliverTo_trace [OF assms(1) [unfolded deliver_unfold]]
  have new: "removals (trace s') = []"
    "prefix (destinations (trace s'))
          [catalogDestination env,
           historyDestination env (backupFilename (minutes (clock E w)))]"
    "\<not> isl r \<longrightarrow> destinations (trace s')
          = [catalogDestination env,
             historyDestination env (backupFilename (minutes (clock E w)))]"
    by auto
  have noop: "pruneHistory tgt keepCount st = (Inr (), st)"
    by (simp add: pruneHistory_def returnE_def)
  from deliverTo_trace [OF assms(2) [unfolded deliver_v1_unfold]]
  have old: "removals (trace s1) = []"
    "prefix (destinations (trace s1))
          [catalogDestination env, historyDestination env (''ingrosmart-'' @ timestamp @ ''.csv'')]"
    "\<not> isl r1 \<longrightarrow> destinations (trace s1)
          = [catalogDestination env,
             historyDestination env (''ingrosmart-'' @ timestamp @ ''.csv'')]"
    by auto
  have differ: "backupFilename minute \<noteq> ''ingrosmart-'' @ timestamp @ ''.csv''"
    by (simp add: backupFilename_def Let_def)
  have idle: "keepCount \<le> 0 \<or> (tgt \<noteq> ''fs'' \<and> tgt \<noteq> ''s3'') \<longrightarrow> r2 = Inr () \<and> trace s2 = []"
  proof
    assume a: "keepCount \<le> 0 \<or> (tgt \<noteq> ''fs'' \<and> tgt \<noteq> ''s3'')"
    show "r2 = Inr () \<and> trace s2 = []"
    proof (cases "keepCount \<le> 0")
      case True
      with assms(3) show ?thesis
        by (auto simp: pruneHistory_v1_def returnE_def)
    next
      case False
      with a have "tgt \<noteq> ''fs''" "tgt \<noteq> ''s3''"
        by auto
      with False assms(3) show ?thesis
        by (auto simp: pruneHistory_v1_def returnE_def catchE_def)
    qed
  qed
  have fs: "0 < keepCount \<and> tgt = ''fs'' \<longrightarrow>
          (\<exists>listing rest. trace s2 = Readdir (path_join [dirname env, ''..'', ''output'', ''history'']) listing
                              # rest
             \<and> (case listing of
                   Inl e \<Rightarrow> rest = []
                 | Inr files \<Rightarrow> followsPlan Unlink (localDeletions env keepCount files) rest))"
  proof
    assume a: "0 < keepCount \<and> tgt = ''fs''"
    with assms(3)
    have "catchE (pruneLocalHistory_v1 E env keepCount)
            (\<lambda>error. case message error of None \<Rightarrow> throwE typeError
             | Some msg \<Rightarrow> returnE ()) ?s = (r2, s2)"
      by (simp add: pruneHistory_v1_def)
    from pruneHistory_v1_catch [OF this] obtain r0
      where "pruneLocalHistory_v1 E env keepCount ?s = (r0, s2)"
      by blast
    from pruneLocalHistory_v1_trace [OF this] a
    show "\<exists>listing rest. trace s2 = Readdir (path_join [dirname env, ''..'', ''output'', ''history'']) listing
                              # rest
             \<and> (case listing of
                   Inl e \<Rightarrow> rest = []
                 | Inr files \<Rightarrow> followsPlan Unlink (localDeletions env keepCount files) rest)"
      by simp
  qed
  have s3: "0 < keepCount \<and> tgt = ''s3'' \<and> S3_ENDPOINT env \<noteq> [] \<and> S3_BUCKET env \<noteq> [] \<longrightarrow>
          (\<exists>listing rest.
             trace s2 = Listed (orDefault (S3_KEY_PREFIX_HISTORY env) ''ingrosmart/history/'')
                          listing # rest
             \<and> (case listing of
                   Inl e \<Rightarrow> rest = []
                 | Inr None \<Rightarrow> rest = []
                 | Inr (Some objects) \<Rightarrow> followsPlan DeleteObject (s3Deletions keepCount objects)
                                            rest))"
  proof
    assume a: "0 < keepCount \<and> tgt = ''s3'' \<and> S3_ENDPOINT env \<noteq> [] \<and> S3_BUCKET env \<noteq> []"
    with assms(3)
    have "catchE (pruneS3History_v1 E env keepCount)
            (\<lambda>error. case message error of None \<Rightarrow> throwE typeError
             | Some msg \<Rightarrow> returnE ()) ?s = (r2, s2)"
      by (simp add: pruneHistory_v1_def)
    from pruneHistory_v1_catch [OF this] obtain r0
      where "pruneS3History_v1 E env keepCount ?s = (r0, s2)"
      by blast
    from pruneS3History_v1_trace [OF this] a
    show "\<exists>listing rest.
             trace s2 = Listed (orDefault (S3_KEY_PREFIX_HISTORY env) ''ingrosmart/history/'')
                          listing # rest
             \<and> (case listing of
                   Inl e \<Rightarrow> rest = []
                 | Inr None \<Rightarrow> rest = []
                 | Inr (Some objects) \<Rightarrow> followsPlan DeleteObject (s3Deletions keepCount objects)
                                            rest)"
      by simp
  qed
  have s3off: "0 < keepCount \<and> tgt = ''s3'' \<and> (S3_ENDPOINT env = [] \<or> S3_BUCKET env = [])
          \<longrightarrow> trace s2 = []"
  proof
    assume a: "0 < keepCount \<and> tgt = ''s3'' \<and> (S3_ENDPOINT env = [] \<or> S3_BUCKET env = [])"
    then have "pruneS3History_v1 E env keepCount ?s = (Inr (), ?s)"
      by (auto simp: pruneS3History_v1_def returnE_def)
    with a assms(3) show "trace s2 = []"
      by (auto simp: pruneHistory_v1_def catchE_def)
  qed
  note order = csvFilesOf_newest_first [of n files] sortedObjectsOf_newest_first [of n objects]
  from name new noop old differ idle fs s3 s3off order show ?thesis
    by blast
qed

text \<open>
  On the file system, with the module installed in \<open>/app/src\<close>, at minute 7 the history
  copy goes to slot 1. The older revision, asked to keep one file of three history files,
  deletes the two older ones, the newer of them first, and leaves other files; when the
  first of these deletions fails, the second is not attempted.
\<close>

theorem retention_policies_witness:
  "deliver sim_env env0 ''a,b'' ''20240105-090730''
       \<lparr>trace = [] :: unit event list, world = site [] []\<rparr>
     = (Inr (),
        \<lparr>trace = [Did (Mkdir ''/app/output/history'') (Inr ()),
                  Did (WriteFile ''/app/output/ingrosmart_catalog.csv'' ''a,b'') (Inr ()),
                  Did (Mkdir ''/app/output/history'') (Inr ()),
                  Did (WriteFile ''/app/output/history/ingrosmart_backup_1.csv'' ''a,b'') (Inr ())],
         world = site [] []\<rparr>)
   \<and> destinations (trace (snd (deliver_v1 sim_env env0 ''a,b'' ''20240105-090730''
       \<lparr>trace = [] :: unit event list, world = site [] []\<rparr>)))
     = [''/app/output/ingrosmart_catalog.csv'',
        ''/app/output/history/ingrosmart-20240105-090730.csv'']
   \<and> pruneHistory_v1 sim_env env0 ''fs'' 1
       \<lparr>trace = [] :: unit event list,
        world = (site [] [])\<lparr>sim_files :=
          [''ingrosmart-20240101-000000.csv'', ''notes.txt'',
           ''ingrosmart-20240103-000000.csv'', ''ingrosmart-20240102-000000.csv'']\<rparr>\<rparr>
     = (Inr (),
        \<lparr>trace = [Readdir ''/app/output/history''
                    (Inr [''ingrosmart-20240101-000000.csv'', ''notes.txt'',
                          ''ingrosmart-20240103-000000.csv'', ''ingrosmart-20240102-000000.csv'']),
                  Did (Unlink ''/app/output/history/ingrosmart-20240102-000000.csv'') (Inr ()),
                  Did (Unlink ''/app/output/history/ingrosmart-20240101-000000.csv'') (Inr ())],
         world = (site [] [])\<lparr>sim_files :=
          [''ingrosmart-20240101-000000.csv'', ''notes.txt'',
           ''ingrosmart-20240103-000000.csv'', ''ingrosmart-20240102-000000.csv'']\<rparr>\<rparr>)
   \<and> trace (snd (pruneHistory_v1 sim_env env0 ''fs'' 1
       \<lparr>trace = [] :: unit event list,
        world = (site [Unlink ''/app/output/history/ingrosmart-20240102-000000.csv''] [])
          \<lparr>sim_files :=
            [''ingrosmart-20240101-000000.csv'', ''notes.txt'',
             ''ingrosmart-20240103-000000.csv'', ''ingrosmart-20240102-000000.csv'']\<rparr>\<rparr>))
     = [Readdir ''/app/output/history''
          (Inr [''ingrosmart-20240101-000000.csv'', ''notes.txt'',
                ''ingrosmart-20240103-000000.csv'', ''ingrosmart-20240102-000000.csv'']),
        Did (Unlink ''/app/output/history/ingrosmart-20240102-000000.csv'')
          (Inl (Error ''Timeout 30000ms exceeded''))]"
proof -
  have a: "deliver sim_env env0 ''a,b'' ''20240105-090730''
       \<lparr>trace = [] :: unit event list, world = site [] []\<rparr>
     = (Inr (),
        \<lparr>trace = [Did (Mkdir ''/app/output/history'') (Inr ()),
                  Did (WriteFile ''/app/output/ingrosmart_catalog.csv'' ''a,b'') (Inr ()),
                  Did (Mkdir ''/app/output/history'') (Inr ()),
                  Did (WriteFile ''/app/output/history/ingrosmart_backup_1.csv'' ''a,b'') (Inr ())],
         world = site [] []\<rparr>)"
    by code_simp
  have b: "destinations (trace (snd (deliver_v1 sim_env env0 ''a,b'' ''20240105-090730''
       \<lparr>trace = [] :: unit event list, world = site [] []\<rparr>)))
     = [''/app/output/ingrosmart_catalog.csv'',
        ''/app/output/history/ingrosmart-20240105-090730.csv'']"
    by code_simp
  have c: "pruneHistory_v1 sim_env env0 ''fs'' 1
       \<lparr>trace = [] :: unit event list,
        world = (site [] [])\<lparr>sim_files :=
          [''ingrosmart-20240101-000000.csv'', ''notes.txt'',
           ''ingrosmart-20240103-000000.csv'', ''ingrosmart-20240102-000000.csv'']\<rparr>\<rparr>
     = (Inr (),
        \<lparr>trace = [Readdir ''/app/output/history''
                    (Inr [''ingrosmart-20240101-000000.csv'', ''notes.txt'',
                          ''ingrosmart-20240103-000000.csv'', ''ingrosmart-20240102-000000.csv'']),
                  Did (Unlink ''/app/output/history/ingrosmart-20240102-000000.csv'') (Inr ()),
                  Did (Unlink ''/app/output/history/ingrosmart-20240101-000000.csv'') (Inr ())],
         world = (site [] [])\<lparr>sim_files :=
          [''ingrosmart-20240101-000000.csv'', ''notes.txt'',
           ''ingrosmart-20240103-000000.csv'', ''ingrosmart-20240102-000000.csv'']\<rparr>\<rparr>)"
    by code_simp
  have d: "trace (snd (pruneHistory_v1 sim_env env0 ''fs'' 1
       \<lparr>trace = [] :: unit event list,
        world = (site [Unlink ''/app/output/history/ingrosmart-20240102-000000.csv''] [])
          \<lparr>sim_files :=
            [''ingrosmart-20240101-000000.csv'', ''notes.txt'',
             ''ingrosmart-20240103-000000.csv'', ''ingrosmart-20240102-000000.csv'']\<rparr>\<rparr>))
     = [Readdir ''/app/output/history''
          (Inr [''ingrosmart-20240101-000000.csv'', ''notes.txt'',
                ''ingrosmart-20240103-000000.csv'', ''ingrosmart-20240102-000000.csv'']),
        Did (Unlink ''/app/output/history/ingrosmart-20240102-000000.csv'')
          (Inl (Error ''Timeout 30000ms exceeded''))]"
    by code_simp
  from retention_policies [OF a surjective_pairing surjective_pairing] a b c d
  show ?thesis
    by simp
qed
end
